theory Spec2Isabelle
  imports Main "HOL-Library.Word" "HOL-Library.Sublist"
begin

unbundle bit_operations_syntax

section \<open>Values of the runtime\<close>

text \<open>
  A \<open>Buffer\<close> is a list of bytes. A JavaScript string is a list of UTF-16 code units, so
  that \<open>length\<close> is the string's \<open>.length\<close>. The function \<open>js\<close> writes an ASCII
  literal as such a string.
\<close>

type_synonym byte = "8 word"
type_synonym buffer = "byte list"
type_synonym jsstring = "16 word list"

definition js :: "string \<Rightarrow> jsstring" where
  "js s = map (\<lambda>c. of_nat (of_char c)) s"

text \<open>\<open>Array.prototype.join(sep)\<close> on an array of strings.\<close>

fun join :: "'a list \<Rightarrow> 'a list list \<Rightarrow> 'a list" where
  "join sep [] = []"
| "join sep [x] = x"
| "join sep (x # y # ys) = x @ sep @ join sep (y # ys)"

subsection \<open>UTF-8\<close>

text \<open>
  \<open>Buffer.from(s, 'utf8')\<close> and the URL serializer encode a string as UTF-8: a surrogate
  pair is one code point of four bytes, a lone surrogate becomes U+FFFD.
\<close>

definition utf8_of_codepoint :: "nat \<Rightarrow> buffer" where
  "utf8_of_codepoint cp =
     (if cp < 0x80 then [of_nat cp]
      else if cp < 0x800 then [of_nat (0xC0 + cp div 64), of_nat (0x80 + cp mod 64)]
      else if cp < 0x10000 then
        [of_nat (0xE0 + cp div 4096), of_nat (0x80 + (cp div 64) mod 64), of_nat (0x80 + cp mod 64)]
      else
        [of_nat (0xF0 + cp div 262144), of_nat (0x80 + (cp div 4096) mod 64),
         of_nat (0x80 + (cp div 64) mod 64), of_nat (0x80 + cp mod 64)])"

definition is_high_surrogate :: "16 word \<Rightarrow> bool" where
  "is_high_surrogate c = (0xD800 \<le> c \<and> c \<le> 0xDBFF)"

definition is_low_surrogate :: "16 word \<Rightarrow> bool" where
  "is_low_surrogate c = (0xDC00 \<le> c \<and> c \<le> 0xDFFF)"

fun utf8_encode :: "jsstring \<Rightarrow> buffer" where
  "utf8_encode [] = []"
| "utf8_encode [c] =
     (if is_high_surrogate c \<or> is_low_surrogate c then [0xEF, 0xBF, 0xBD]
      else utf8_of_codepoint (unat c))"
| "utf8_encode (c # d # cs) =
     (if is_high_surrogate c \<and> is_low_surrogate d then
        utf8_of_codepoint (0x10000 + (unat c - 0xD800) * 1024 + (unat d - 0xDC00)) @ utf8_encode cs
      else if is_high_surrogate c \<or> is_low_surrogate c then [0xEF, 0xBF, 0xBD] @ utf8_encode (d # cs)
      else utf8_of_codepoint (unat c) @ utf8_encode (d # cs))"

text \<open>
  \<open>buffer.toString()\<close> decodes UTF-8. A lead byte announces how many continuation bytes
  follow and the range of the first of them; a byte that does not fit ends the sequence
  with U+FFFD and is read again as a lead byte.
\<close>

definition utf16_of_codepoint :: "nat \<Rightarrow> jsstring" where
  "utf16_of_codepoint cp =
     (if cp < 0x10000 then [of_nat cp]
      else [of_nat (0xD800 + (cp - 0x10000) div 1024), of_nat (0xDC00 + (cp - 0x10000) mod 1024)])"

text \<open>The decoder's state after a lead byte: code point so far, bytes needed, bounds of the next byte.\<close>

definition utf8_lead :: "byte \<Rightarrow> (nat \<times> nat \<times> nat \<times> nat) option" where
  "utf8_lead b =
     (let n = unat b in
      if 0xC2 \<le> n \<and> n \<le> 0xDF then Some (n mod 32, 1, 0x80, 0xBF)
      else if 0xE0 \<le> n \<and> n \<le> 0xEF then
        Some (n mod 16, 2, if n = 0xE0 then 0xA0 else 0x80, if n = 0xED then 0x9F else 0xBF)
      else if 0xF0 \<le> n \<and> n \<le> 0xF4 then
        Some (n mod 8, 3, if n = 0xF0 then 0x90 else 0x80, if n = 0xF4 then 0x8F else 0xBF)
      else None)"

fun utf8_decode_from :: "(nat \<times> nat \<times> nat \<times> nat) option \<Rightarrow> buffer \<Rightarrow> jsstring" where
  "utf8_decode_from None [] = []"
| "utf8_decode_from (Some st) [] = [0xFFFD]"
| "utf8_decode_from None (b # bs) =
     (if unat b < 0x80 then ucast b # utf8_decode_from None bs
      else case utf8_lead b of
        Some st \<Rightarrow> utf8_decode_from (Some st) bs
      | None \<Rightarrow> 0xFFFD # utf8_decode_from None bs)"
| "utf8_decode_from (Some (cp, needed, lo, hi)) (b # bs) =
     (if lo \<le> unat b \<and> unat b \<le> hi then
        (if needed = 1 then utf16_of_codepoint (cp * 64 + unat b mod 64) @ utf8_decode_from None bs
         else utf8_decode_from (Some (cp * 64 + unat b mod 64, needed - 1, 0x80, 0xBF)) bs)
      else 0xFFFD #
        (if unat b < 0x80 then ucast b # utf8_decode_from None bs
         else case utf8_lead b of
           Some st \<Rightarrow> utf8_decode_from (Some st) bs
         | None \<Rightarrow> 0xFFFD # utf8_decode_from None bs))"

definition buffer_toString :: "buffer \<Rightarrow> jsstring" where
  "buffer_toString b = utf8_decode_from None b"

subsection \<open>Base64\<close>

text \<open>
  \<open>buffer.toString('base64')\<close>: three bytes become four characters of the standard
  alphabet, the last group is padded with \<open>=\<close>.
\<close>

definition b64code :: "nat \<Rightarrow> nat" where
  "b64code i =
     (if i < 26 then 65 + i
      else if i < 52 then 97 + (i - 26)
      else if i < 62 then 48 + (i - 52)
      else if i = 62 then 43 else 47)"

definition b64char :: "nat \<Rightarrow> 16 word" where
  "b64char i = of_nat (b64code i)"

fun base64_encode :: "buffer \<Rightarrow> jsstring" where
  "base64_encode [] = []"
| "base64_encode [a] =
     [b64char (unat a div 4), b64char (unat a mod 4 * 16), 61, 61]"
| "base64_encode [a, b] =
     [b64char (unat a div 4), b64char (unat a mod 4 * 16 + unat b div 16),
      b64char (unat b mod 16 * 4), 61]"
| "base64_encode (a # b # c # bs) =
     [b64char (unat a div 4), b64char (unat a mod 4 * 16 + unat b div 16),
      b64char (unat b mod 16 * 4 + unat c div 64), b64char (unat c mod 64)] @ base64_encode bs"

text \<open>
  The reader's side of the round trip: a decoder of padded standard base64, which accepts
  groups of four characters and padding in the last group only.
\<close>

definition b64val :: "16 word \<Rightarrow> nat option" where
  "b64val c =
     (let n = unat c in
      if 65 \<le> n \<and> n \<le> 90 then Some (n - 65)
      else if 97 \<le> n \<and> n \<le> 122 then Some (n - 97 + 26)
      else if 48 \<le> n \<and> n \<le> 57 then Some (n - 48 + 52)
      else if n = 43 then Some 62
      else if n = 47 then Some 63
      else None)"

fun base64_decode :: "jsstring \<Rightarrow> buffer option" where
  "base64_decode [] = Some []"
| "base64_decode (c1 # c2 # c3 # c4 # cs) =
     (case (b64val c1, b64val c2) of
        (Some v1, Some v2) \<Rightarrow>
          (if cs = [] \<and> c3 = 61 \<and> c4 = 61 then Some [of_nat (v1 * 4 + v2 div 16)]
           else case b64val c3 of
             None \<Rightarrow> None
           | Some v3 \<Rightarrow>
               (if cs = [] \<and> c4 = 61 then
                  Some [of_nat (v1 * 4 + v2 div 16), of_nat (v2 mod 16 * 16 + v3 div 4)]
                else case (b64val c4, base64_decode cs) of
                  (Some v4, Some rest) \<Rightarrow>
                    Some ([of_nat (v1 * 4 + v2 div 16), of_nat (v2 mod 16 * 16 + v3 div 4),
                           of_nat (v3 mod 4 * 64 + v4)] @ rest)
                | _ \<Rightarrow> None))
      | _ \<Rightarrow> None)"
| "base64_decode _ = None"

section \<open>Events (types.ts)\<close>

text \<open>
  The event is probed structurally (\<open>'path' in event\<close>, \<open>event.version === '2.0'\<close>), so
  it is a record of optional fields: \<open>None\<close> is a field that is absent (or, for the query
  map and the body, null). \<open>queryStringParameters\<close> lists the entries of the map in the
  order of \<open>Object.entries\<close>; a value may be undefined.
\<close>

record event =
  version :: "jsstring option"
  httpMethod :: "jsstring option"
  path :: "jsstring option"
  rawPath :: "jsstring option"
  queryStringParameters :: "(jsstring \<times> jsstring option) list option"
  rawQueryString :: "jsstring option"
  body :: "jsstring option"

datatype api_version = V1 | V2

text \<open>A string in a condition: absent and empty strings are falsy.\<close>

fun truthy :: "jsstring option \<Rightarrow> bool" where
  "truthy None = False"
| "truthy (Some s) = (s \<noteq> [])"

definition detectApiGatewayVersion :: "event \<Rightarrow> api_version" where
  "detectApiGatewayVersion e =
     (if version e = Some (js ''2.0'') then V2
      else if truthy (httpMethod e) then V1
      else V1)"

section \<open>URL of the request (lambda-incoming-message.ts)\<close>

text \<open>
  \<open>URLSearchParams.toString()\<close> is the application/x-www-form-urlencoded serializer: the
  UTF-8 bytes of names and values, with ASCII letters and digits and \<open>* - . _\<close> kept,
  a space written \<open>+\<close>, and every other byte written \<open>%XX\<close> in upper-case hexadecimal.
\<close>

definition urlencoded_keeps :: "byte \<Rightarrow> bool" where
  "urlencoded_keeps b =
     (let n = unat b in
      (0x30 \<le> n \<and> n \<le> 0x39) \<or> (0x41 \<le> n \<and> n \<le> 0x5A) \<or> (0x61 \<le> n \<and> n \<le> 0x7A) \<or>
      n = 0x2A \<or> n = 0x2D \<or> n = 0x2E \<or> n = 0x5F)"

definition hex_upper :: "nat \<Rightarrow> 16 word" where
  "hex_upper n = (if n < 10 then of_nat (48 + n) else of_nat (55 + n))"

definition urlencode_byte :: "byte \<Rightarrow> jsstring" where
  "urlencode_byte b =
     (if urlencoded_keeps b then [ucast b]
      else if b = 0x20 then [0x2B]
      else [0x25, hex_upper (unat b div 16), hex_upper (unat b mod 16)])"

definition urlencode :: "jsstring \<Rightarrow> jsstring" where
  "urlencode s = concat (map urlencode_byte (utf8_encode s))"

definition URLSearchParams_toString :: "(jsstring \<times> jsstring) list \<Rightarrow> jsstring" where
  "URLSearchParams_toString ps =
     join (js ''&'') (map (\<lambda>(k, v). urlencode k @ js ''='' @ urlencode v) ps)"

text \<open>The loop of \<open>_parseUrl\<close> over the entries: null and undefined values are skipped.\<close>

fun append_params :: "(jsstring \<times> jsstring option) list \<Rightarrow> (jsstring \<times> jsstring) list" where
  "append_params [] = []"
| "append_params ((k, None) # es) = append_params es"
| "append_params ((k, Some v) # es) = (k, v) # append_params es"

definition parseUrl :: "event \<Rightarrow> jsstring" where
  "parseUrl e =
     (let p = (case path e of Some x \<Rightarrow> x
               | None \<Rightarrow> (case rawPath e of Some x \<Rightarrow> x | None \<Rightarrow> []));
          query = (case queryStringParameters e of
                     Some es \<Rightarrow> URLSearchParams_toString (append_params es)
                   | None \<Rightarrow> (case rawQueryString e of
                               Some q \<Rightarrow> (if q \<noteq> [] then q else [])
                             | None \<Rightarrow> []))
      in if query \<noteq> [] then p @ js ''?'' @ query else p)"

text \<open>
  An HTTP API event as the gateway delivers it for \<open>GET /y?a=1&a=2\<close>: the raw query string
  keeps both parameters, the structured map merges the duplicate key with a comma.
\<close>

definition merged_query_event :: event where
  "merged_query_event =
     \<lparr>version = Some (js ''2.0''), httpMethod = None, path = None, rawPath = Some (js ''/y''),
      queryStringParameters = Some [(js ''a'', Some (js ''1,2''))],
      rawQueryString = Some (js ''a=1&a=2''), body = None\<rparr>"

section \<open>EventResponseBodyWriter (lambda-writable.ts)\<close>

text \<open>
  A chunk handed to \<open>_write(chunk, encoding, callback)\<close> is a string or a \<open>Buffer\<close>
  (\<open>typeof chunk === 'string'\<close> tells them apart). The encoding is whatever the caller
  supplied; the conversion \<open>Buffer.from(chunk, encoding)\<close> belongs to the runtime and is a
  parameter \<open>conv\<close> of the functions below.
\<close>

datatype 'e chunk = StringChunk jsstring 'e | BufferChunk buffer

text \<open>\<open>chunk.length\<close>: code units of a string, bytes of a \<open>Buffer\<close>.\<close>

fun chunk_length :: "'e chunk \<Rightarrow> nat" where
  "chunk_length (StringChunk s e) = length s"
| "chunk_length (BufferChunk b) = length b"

text \<open>What a chunk appends to the accumulator.\<close>

fun chunk_bytes :: "(jsstring \<Rightarrow> 'e \<Rightarrow> buffer) \<Rightarrow> 'e chunk \<Rightarrow> buffer" where
  "chunk_bytes conv (StringChunk s e) = conv s e"
| "chunk_bytes conv (BufferChunk b) = b"

record body_writer =
  writeBodyAccumulator :: "buffer list"
  bytesWritten :: nat

definition new_body_writer :: body_writer where
  "new_body_writer = \<lparr>writeBodyAccumulator = [], bytesWritten = 0\<rparr>"

text \<open>\<open>_write\<close>: both branches push onto the accumulator and add \<open>chunk.length\<close>.\<close>

fun writer_write :: "(jsstring \<Rightarrow> 'e \<Rightarrow> buffer) \<Rightarrow> body_writer \<Rightarrow> 'e chunk \<Rightarrow> body_writer" where
  "writer_write conv w (StringChunk s e) =
     w\<lparr>writeBodyAccumulator := writeBodyAccumulator w @ [conv s e],
       bytesWritten := bytesWritten w + length s\<rparr>"
| "writer_write conv w (BufferChunk b) =
     w\<lparr>writeBodyAccumulator := writeBodyAccumulator w @ [b],
       bytesWritten := bytesWritten w + length b\<rparr>"

text \<open>The getter \<open>body\<close>: \<open>Buffer.concat(this._writeBodyAccumulator)\<close>.\<close>

definition writer_body :: "body_writer \<Rightarrow> buffer" where
  "writer_body w = concat (writeBodyAccumulator w)"

text \<open>A sequence of \<open>_write\<close> calls, in call order.\<close>

definition writer_writes :: "(jsstring \<Rightarrow> 'e \<Rightarrow> buffer) \<Rightarrow> body_writer \<Rightarrow> 'e chunk list \<Rightarrow> body_writer" where
  "writer_writes conv w cs = foldl (writer_write conv) w cs"

text \<open>The conversion of the runtime for the encoding \<open>'utf8'\<close>, as an instance of \<open>conv\<close>.\<close>

datatype encoding = Utf8

fun buffer_from :: "jsstring \<Rightarrow> encoding \<Rightarrow> buffer" where
  "buffer_from s Utf8 = utf8_encode s"

section \<open>LambdaResponse (lambda-response.ts)\<close>

text \<open>
  JavaScript numbers are modelled where they are integers (status codes, header values),
  with \<open>NaN\<close> for a failed \<open>parseInt\<close>.
\<close>

datatype jsnumber = Number int | NaN

text \<open>
  \<open>this.statusCode\<close> is declared a number; the code also provides for \<open>undefined\<close> and
  for a string.
\<close>

datatype status_code = StatusUndefined | StatusNumber jsnumber | StatusString jsstring

text \<open>A value of the header store returned by \<open>getHeaders()\<close>, and a value of the flat map.\<close>

datatype header_value = HString jsstring | HNumber int | HArray "jsstring list" | HUndefined

datatype out_header = OString jsstring | ONumber int

text \<open>The states of the response, in the order the specification gives them.\<close>

datatype phase = Constructed | Writing | Ending | Finished

text \<open>
  The response: the event of the bound request, the inherited status and header store, and
  the body sink assigned as its socket. The last four fields are state of the inherited
  response writer and of the sink's stream: the phase, whether headers were sent, the body
  seen at each finish signal, and whether the sink was closed.
\<close>

record lambda_response =
  req_lambdaEvent :: event
  statusCode :: status_code
  getHeaders :: "(jsstring \<times> header_value) list"
  socket :: body_writer
  phase :: phase
  headersSent :: bool
  finishSignals :: "buffer list"
  socketEnded :: bool

text \<open>The constructor: a fresh sink; the inherited status is 200.\<close>

definition new_LambdaResponse :: "event \<Rightarrow> lambda_response" where
  "new_LambdaResponse e =
     \<lparr>req_lambdaEvent = e, statusCode = StatusNumber (Number 200), getHeaders = [],
      socket = new_body_writer, phase = Constructed, headersSent = False,
      finishSignals = [], socketEnded = False\<rparr>"

subsection \<open>Headers\<close>

fun makeHeaders_entry :: "(jsstring \<rightharpoonup> out_header) \<Rightarrow> jsstring \<times> header_value \<Rightarrow> (jsstring \<rightharpoonup> out_header)" where
  "makeHeaders_entry headers (key, v) =
     (let val = (if key = js ''set-cookie'' \<and> v \<noteq> HUndefined
                 then (case v of HArray xs \<Rightarrow> HString (join (js ''; '') xs) | _ \<Rightarrow> v)
                 else v)
      in case val of
           HUndefined \<Rightarrow> headers
         | HString s \<Rightarrow> headers(key \<mapsto> OString s)
         | HArray xs \<Rightarrow> headers(key \<mapsto> OString (join (js '','') xs))
         | HNumber n \<Rightarrow> headers(key \<mapsto> ONumber n))"

definition makeHeaders :: "lambda_response \<Rightarrow> (jsstring \<rightharpoonup> out_header)" where
  "makeHeaders r = foldl makeHeaders_entry Map.empty (getHeaders r)"

subsection \<open>Body\<close>

definition makeBodyResponse :: "lambda_response \<Rightarrow> jsstring \<times> bool" where
  "makeBodyResponse r =
     (let b = writer_body (socket r) in
      if list_ex (\<lambda>c. c < 32 \<or> c > 126) b then (base64_encode b, True)
      else (buffer_toString b, False))"

subsection \<open>Status code\<close>

text \<open>
  \<open>parseInt(string)\<close> of the language: leading white space and a sign are skipped, a
  prefix \<open>0x\<close> selects radix 16, the longest run of digits is read, and no digit at all
  gives \<open>NaN\<close>. The value is exact below \<open>2^53\<close>.
\<close>

definition is_js_whitespace :: "16 word \<Rightarrow> bool" where
  "is_js_whitespace c =
     (let n = unat c in
      (0x09 \<le> n \<and> n \<le> 0x0D) \<or> n = 0x20 \<or> n = 0xA0 \<or> n = 0x1680 \<or>
      (0x2000 \<le> n \<and> n \<le> 0x200A) \<or> n = 0x2028 \<or> n = 0x2029 \<or> n = 0x202F \<or>
      n = 0x205F \<or> n = 0x3000 \<or> n = 0xFEFF)"

definition digit_value :: "nat \<Rightarrow> 16 word \<Rightarrow> nat option" where
  "digit_value radix c =
     (let n = unat c;
          d = (if 48 \<le> n \<and> n \<le> 57 then n - 48
               else if 97 \<le> n \<and> n \<le> 122 then n - 87
               else if 65 \<le> n \<and> n \<le> 90 then n - 55
               else radix)
      in if d < radix then Some d else None)"

fun digits_prefix :: "nat \<Rightarrow> jsstring \<Rightarrow> nat list" where
  "digits_prefix radix [] = []"
| "digits_prefix radix (c # cs) =
     (case digit_value radix c of
        Some d \<Rightarrow> d # digits_prefix radix cs
      | None \<Rightarrow> [])"

definition digits_value :: "nat \<Rightarrow> nat list \<Rightarrow> nat" where
  "digits_value radix ds = foldl (\<lambda>a d. a * radix + d) 0 ds"

definition parseInt :: "jsstring \<Rightarrow> jsnumber" where
  "parseInt s =
     (let t = dropWhile is_js_whitespace s;
          neg = (t \<noteq> [] \<and> hd t = 0x2D);
          t1 = (if t \<noteq> [] \<and> (hd t = 0x2D \<or> hd t = 0x2B) then tl t else t);
          hex = (case t1 of a # b # cs \<Rightarrow> a = 0x30 \<and> (b = 0x78 \<or> b = 0x58) | _ \<Rightarrow> False);
          radix = (if hex then 16 else 10);
          ds = digits_prefix radix (if hex then drop 2 t1 else t1)
      in if ds = [] then NaN
         else Number ((if neg then - 1 else 1) * int (digits_value radix ds)))"

definition lambdaStatusCode :: "lambda_response \<Rightarrow> jsnumber option" where
  "lambdaStatusCode r =
     (case statusCode r of
        StatusUndefined \<Rightarrow> None
      | StatusString s \<Rightarrow> Some (parseInt s)
      | StatusNumber n \<Rightarrow> Some n)"

text \<open>\<open>x || 200\<close>: undefined, \<open>NaN\<close> and 0 are falsy.\<close>

fun or_200 :: "jsnumber option \<Rightarrow> jsnumber" where
  "or_200 None = Number 200"
| "or_200 (Some NaN) = Number 200"
| "or_200 (Some (Number n)) = (if n = 0 then Number 200 else Number n)"

subsection \<open>The two result shapes\<close>

record result_v1 =
  v1_statusCode :: jsnumber
  v1_body :: jsstring
  v1_headers :: "jsstring \<rightharpoonup> out_header"
  v1_isBase64Encoded :: bool

text \<open>In the second shape the status may be undefined and \<open>cookies\<close> is an optional field.\<close>

record result_v2 =
  v2_statusCode :: "jsnumber option"
  v2_body :: jsstring
  v2_headers :: "jsstring \<rightharpoonup> out_header"
  v2_isBase64Encoded :: bool
  v2_cookies :: "jsstring list option"

datatype lambda_result = ResultV1 result_v1 | ResultV2 result_v2

datatype js_error = TypeError | Error

text \<open>\<open>String.prototype.split(sep)\<close>; an empty separator splits into code units.\<close>

fun split_from :: "'a list \<Rightarrow> 'a list \<Rightarrow> 'a list \<Rightarrow> 'a list list" where
  "split_from sep cur [] = [cur]"
| "split_from sep cur (c # cs) =
     (if sep \<noteq> [] \<and> prefix sep (c # cs)
      then cur # split_from sep [] (drop (length sep) (c # cs))
      else split_from sep (cur @ [c]) cs)"

definition String_split :: "'a list \<Rightarrow> 'a list \<Rightarrow> 'a list list" where
  "String_split s sep = (if sep = [] then map (\<lambda>c. [c]) s else split_from sep [] s)"

definition lambdaResponse :: "lambda_response \<Rightarrow> result_v1" where
  "lambdaResponse r =
     (let headers = makeHeaders r;
          (b, isBase64Encoded) = makeBodyResponse r;
          status = or_200 (lambdaStatusCode r)
      in \<lparr>v1_statusCode = status, v1_body = b, v1_headers = headers,
          v1_isBase64Encoded = isBase64Encoded\<rparr>)"

text \<open>
  In \<open>lambdaResponseV2\<close> the value of \<open>set-cookie\<close> is cast to a string and split; a number
  has no \<open>split\<close> method, which is a \<open>TypeError\<close>.
\<close>

definition lambdaResponseV2 :: "lambda_response \<Rightarrow> js_error + result_v2" where
  "lambdaResponseV2 r =
     (let headers = makeHeaders r;
          (b, isBase64Encoded) = makeBodyResponse r;
          status = lambdaStatusCode r
      in case headers (js ''set-cookie'') of
           None \<Rightarrow>
             Inr \<lparr>v2_statusCode = status, v2_body = b, v2_headers = headers,
                  v2_isBase64Encoded = isBase64Encoded, v2_cookies = None\<rparr>
         | Some (ONumber n) \<Rightarrow> Inl TypeError
         | Some (OString s) \<Rightarrow>
             (let cookies = String_split s (js ''; '');
                  headers' = headers(js ''set-cookie'' := None)
              in Inr \<lparr>v2_statusCode = status, v2_body = b, v2_headers = headers',
                      v2_isBase64Encoded = isBase64Encoded,
                      v2_cookies = (if length cookies > 0 then Some cookies else None)\<rparr>))"

definition toLambdaResponse :: "lambda_response \<Rightarrow> js_error + lambda_result" where
  "toLambdaResponse r =
     (if detectApiGatewayVersion (req_lambdaEvent r) = V1 then Inr (ResultV1 (lambdaResponse r))
      else map_sum id ResultV2 (lambdaResponseV2 r))"

text \<open>Two responses to the same event: one was written \<open>"ok"\<close>, the other \<open>"ok"\<close> and a line feed.\<close>

definition text_response :: lambda_response where
  "text_response =
     (new_LambdaResponse merged_query_event)
       \<lparr>socket := writer_writes buffer_from new_body_writer [StringChunk (js ''ok'') Utf8]\<rparr>"

definition binary_response :: lambda_response where
  "binary_response =
     (new_LambdaResponse merged_query_event)
       \<lparr>socket := writer_writes buffer_from new_body_writer
          [StringChunk (js ''ok'') Utf8, BufferChunk [10]]\<rparr>"

text \<open>
  A response whose header store holds two cookies and a two-valued header, bound to a
  request of either format.
\<close>

definition rest_event :: event where
  "rest_event =
     \<lparr>version = None, httpMethod = Some (js ''GET''), path = Some (js ''/x''), rawPath = None,
      queryStringParameters = None, rawQueryString = None, body = None\<rparr>"

definition cookie_headers :: "(jsstring \<times> header_value) list" where
  "cookie_headers =
     [(js ''set-cookie'', HArray [js ''a=1'', js ''b=2'']), (js ''vary'', HArray [js ''a'', js ''b''])]"

definition cookie_response :: "event \<Rightarrow> lambda_response" where
  "cookie_response e = (new_LambdaResponse e)\<lparr>getHeaders := cookie_headers\<rparr>"

text \<open>What one entry \<open>(key, v)\<close> of the header store leaves in the flat map under \<open>key\<close>.\<close>

definition flat_value :: "jsstring \<Rightarrow> header_value \<Rightarrow> out_header option" where
  "flat_value key v =
     (case v of
        HUndefined \<Rightarrow> None
      | HString s \<Rightarrow> Some (OString s)
      | HArray xs \<Rightarrow> Some (OString (join (if key = js ''set-cookie'' then js ''; '' else js '','') xs))
      | HNumber n \<Rightarrow> Some (ONumber n))"

subsection \<open>Ending the response\<close>

text \<open>
  Modelled from the spec: the inherited \<open>write\<close> and \<open>end\<close> of the response writer that
  \<open>LambdaResponse\<close> extends, and the \<open>end\<close> of the stream that the sink extends, are code
  of the runtime and not in the source. The specification gives the states
  \<open>constructed\<close>, \<open>writing\<close>, \<open>ending\<close>, \<open>finished\<close>, with no transition back to
  \<open>writing\<close> once ending has begun, and says of the inherited finish logic that it flushes
  any final chunk, marks headers sent and emits the completion signal. A write passes its
  chunk to the sink; once ending has begun, writes and a further \<open>end\<close> are ignored.
\<close>

definition ending_begun :: "lambda_response \<Rightarrow> bool" where
  "ending_begun r = (phase r = Ending \<or> phase r = Finished)"

definition inherited_write ::
  "(jsstring \<Rightarrow> 'e \<Rightarrow> buffer) \<Rightarrow> lambda_response \<Rightarrow> 'e chunk \<Rightarrow> lambda_response" where
  "inherited_write conv r c =
     (if ending_begun r then r
      else r\<lparr>socket := writer_write conv (socket r) c, phase := Writing\<rparr>)"

definition inherited_end ::
  "(jsstring \<Rightarrow> 'e \<Rightarrow> buffer) \<Rightarrow> lambda_response \<Rightarrow> 'e chunk option \<Rightarrow> lambda_response" where
  "inherited_end conv r chunk =
     (if ending_begun r then r
      else (let r1 = (case chunk of None \<Rightarrow> r
                      | Some c \<Rightarrow> r\<lparr>socket := writer_write conv (socket r) c\<rparr>);
                r2 = r1\<lparr>phase := Ending, headersSent := True\<rparr>
            in r2\<lparr>finishSignals := finishSignals r2 @ [writer_body (socket r2)],
                  phase := Finished\<rparr>))"

text \<open>Modelled from the spec: \<open>this.socket.end()\<close> closes the underlying write sink.\<close>

definition sink_end :: "lambda_response \<Rightarrow> lambda_response" where
  "sink_end r = r\<lparr>socketEnded := True\<rparr>"

text \<open>
  \<open>LambdaResponse.end\<close>, from the source: the inherited \<open>end\<close>, then the sink's \<open>end\<close>,
  inside a \<open>try\<close> whose handler only logs.
\<close>

definition LambdaResponse_end ::
  "(jsstring \<Rightarrow> 'e \<Rightarrow> buffer) \<Rightarrow> lambda_response \<Rightarrow> 'e chunk option \<Rightarrow> lambda_response" where
  "LambdaResponse_end conv r chunk = sink_end (inherited_end conv r chunk)"

text \<open>Calls on a response: a write, or \<open>end\<close> with or without a final chunk.\<close>

datatype 'e response_call = CallWrite "'e chunk" | CallEnd "'e chunk option"

fun do_call ::
  "(jsstring \<Rightarrow> 'e \<Rightarrow> buffer) \<Rightarrow> lambda_response \<Rightarrow> 'e response_call \<Rightarrow> lambda_response" where
  "do_call conv r (CallWrite c) = inherited_write conv r c"
| "do_call conv r (CallEnd c) = LambdaResponse_end conv r c"

section \<open>Notions of the specification\<close>

text \<open>The printable ASCII range of the specification, 32 to 126 inclusive.\<close>

definition printable_ascii :: "byte \<Rightarrow> bool" where
  "printable_ascii b = (32 \<le> b \<and> b \<le> 126)"

text \<open>The literal text of printable bytes: one code unit for each byte, with the same value.\<close>

definition literal_text :: "buffer \<Rightarrow> jsstring" where
  "literal_text b = map ucast b"

text \<open>A numeric string is a non-empty string of decimal digits; its value is read in base ten.\<close>

definition is_decimal_digit :: "16 word \<Rightarrow> bool" where
  "is_decimal_digit c = (0x30 \<le> c \<and> c \<le> 0x39)"

definition numeric_string :: "jsstring \<Rightarrow> bool" where
  "numeric_string s = (s \<noteq> [] \<and> list_all is_decimal_digit s)"

definition decimal_value :: "jsstring \<Rightarrow> nat" where
  "decimal_value s = foldl (\<lambda>a c. a * 10 + (unat c - 48)) 0 s"

text \<open>The body and the binary flag of a serialized result, of either shape.\<close>

fun result_body :: "lambda_result \<Rightarrow> jsstring" where
  "result_body (ResultV1 res) = v1_body res"
| "result_body (ResultV2 res) = v2_body res"

fun result_isBase64Encoded :: "lambda_result \<Rightarrow> bool" where
  "result_isBase64Encoded (ResultV1 res) = v1_isBase64Encoded res"
| "result_isBase64Encoded (ResultV2 res) = v2_isBase64Encoded res"

section \<open>EventWrapperSocket (event-wrapper-socket.ts)\<close>

subsection \<open>BasicTimeout and the runtime's timers\<close>

text \<open>
  A \<open>BasicTimeout\<close> creates one timer of the runtime in its constructor, and its field
  \<open>_timeout\<close> is that timer or undefined. One cell of the store holds both objects: the
  duration \<open>_timeoutMs\<close>, whether \<open>_timeout\<close> still holds the timer, and the runtime's
  side of the timer, the time at which it is scheduled to run its callback (\<open>None\<close>: not
  scheduled). The cell also counts how often the runtime has run the callback, and names
  the callback that \<open>setTimeout\<close> was given, if any.

  Time is a clock of milliseconds. The runtime's \<open>setTimeout(f, ms)\<close> schedules the timer
  at \<open>now\<close> plus its delay, \<open>clearTimeout\<close> unschedules it, and \<open>refresh()\<close> schedules it
  again at \<open>now\<close> plus its delay, whatever its state. The runtime takes a duration from 1
  to \<open>2^31 - 1\<close> milliseconds as the delay, and replaces any other by 1 millisecond.
\<close>

definition runtime_delay :: "nat \<Rightarrow> nat" where
  "runtime_delay ms = (if 1 \<le> ms \<and> ms \<le> 2147483647 then ms else 1)"

record basic_timeout =
  timeoutMs :: nat
  holds_timer :: bool
  scheduled :: "nat option"
  times_fired :: nat
  user_callback :: "nat option"

text \<open>
  The endpoint with the part of the world it acts on: the request body and read offset,
  what \<open>push\<close> has delivered to the readable side (\<open>None\<close> is the end-of-stream marker
  \<open>null\<close>), the write accumulator and counter, the reference \<open>_timeout\<close> into the store
  of \<open>BasicTimeout\<close> objects, the clock, the times at which \<open>'timeout'\<close> was emitted, the
  number of calls of the caller's callbacks and the listeners registered for \<open>'timeout'\<close>.

  Callbacks and listeners are code of the caller. They are named by numbers, and an
  environment gives each name what the function does to the endpoint when it is called;
  it may call any method of the endpoint.
\<close>

record 'a event_wrapper_socket =
  readBody :: "'a list option"
  readOffset :: nat
  pushed :: "'a list option list"
  sock_writeBodyAccumulator :: "buffer list"
  sock_bytesWritten :: nat
  sock_timeout :: "nat option"
  store :: "basic_timeout list"
  now :: nat
  timeouts_emitted :: "nat list"
  callbacks_called :: nat
  timeout_listeners :: "nat list"

type_synonym 'a callbacks = "nat \<Rightarrow> 'a event_wrapper_socket \<Rightarrow> 'a event_wrapper_socket"

definition new_EventWrapperSocket :: "'a list option \<Rightarrow> 'a event_wrapper_socket" where
  "new_EventWrapperSocket b =
     \<lparr>readBody = b, readOffset = 0, pushed = [], sock_writeBodyAccumulator = [],
      sock_bytesWritten = 0, sock_timeout = None, store = [], now = 0,
      timeouts_emitted = [], callbacks_called = 0, timeout_listeners = []\<rparr>"

text \<open>
  The constructor of \<open>BasicTimeout\<close> throws for a duration that is not positive, before it
  creates the timer; otherwise the new object is allocated at the end of the store.
\<close>

definition new_BasicTimeout ::
  "nat option \<Rightarrow> int \<Rightarrow> 'a event_wrapper_socket \<Rightarrow> js_error + (nat \<times> 'a event_wrapper_socket)" where
  "new_BasicTimeout cb ms s =
     (if ms \<le> 0 then Inl Error
      else Inr (length (store s),
        s\<lparr>store := store s @
          [\<lparr>timeoutMs = nat ms, holds_timer = True,
            scheduled = Some (now s + runtime_delay (nat ms)),
            times_fired = 0, user_callback = cb\<rparr>]\<rparr>))"

definition BasicTimeout_refresh :: "nat \<Rightarrow> 'a event_wrapper_socket \<Rightarrow> 'a event_wrapper_socket" where
  "BasicTimeout_refresh i s =
     (if i < length (store s) \<and> holds_timer (store s ! i)
      then s\<lparr>store := (store s)[i := (store s ! i)
             \<lparr>scheduled := Some (now s + runtime_delay (timeoutMs (store s ! i)))\<rparr>]\<rparr>
      else s)"

definition BasicTimeout_cancel :: "nat \<Rightarrow> 'a event_wrapper_socket \<Rightarrow> 'a event_wrapper_socket" where
  "BasicTimeout_cancel i s =
     (if i < length (store s) \<and> holds_timer (store s ! i)
      then s\<lparr>store := (store s)[i := (store s ! i)\<lparr>scheduled := None, holds_timer := False\<rparr>]\<rparr>
      else s)"

text \<open>\<open>this._timeout?.cancel()\<close> and \<open>this._timeout?.refresh()\<close>.\<close>

definition cancel_timeout :: "'a event_wrapper_socket \<Rightarrow> 'a event_wrapper_socket" where
  "cancel_timeout s = (case sock_timeout s of None \<Rightarrow> s | Some i \<Rightarrow> BasicTimeout_cancel i s)"

definition refresh_timeout :: "'a event_wrapper_socket \<Rightarrow> 'a event_wrapper_socket" where
  "refresh_timeout s = (case sock_timeout s of None \<Rightarrow> s | Some i \<Rightarrow> BasicTimeout_refresh i s)"

text \<open>
  \<open>setTimeout(timeout, callback)\<close>: the state after the call, and the error if the call
  threw (the cancellation before the constructor has happened by then).
\<close>

definition setTimeout ::
  "int \<Rightarrow> nat option \<Rightarrow> 'a event_wrapper_socket \<Rightarrow> js_error option \<times> 'a event_wrapper_socket" where
  "setTimeout ms cb s =
     (if ms = 0 then (None, cancel_timeout s)
      else (let s1 = cancel_timeout s in
            case new_BasicTimeout cb ms s1 of
              Inl e \<Rightarrow> (Some e, s1)
            | Inr (i, s2) \<Rightarrow> (None, s2\<lparr>sock_timeout := Some i\<rparr>)))"

text \<open>\<open>this.emit('timeout')\<close>: the listeners registered at that moment run in order.\<close>

definition emit_timeout :: "'a callbacks \<Rightarrow> 'a event_wrapper_socket \<Rightarrow> 'a event_wrapper_socket" where
  "emit_timeout env s =
     foldl (\<lambda>s' k. env k s') (s\<lparr>timeouts_emitted := timeouts_emitted s @ [now s]\<rparr>)
       (timeout_listeners s)"

text \<open>
  The runtime runs the callback of timer \<open>i\<close>. It takes the timer off the schedule and
  calls the function the \<open>BasicTimeout\<close> gave it: the endpoint emits \<open>'timeout'\<close>, calls
  the caller's callback if there is one and then clears its \<open>_timeout\<close>; finally the
  \<open>BasicTimeout\<close> clears its own \<open>_timeout\<close>. What listeners and callback did to the
  endpoint in between stays: a timeout they installed has its handle cleared with the
  rest, a refresh by a write of theirs has scheduled the timer again. Callbacks are taken
  to return normally.
\<close>

definition fire :: "'a callbacks \<Rightarrow> nat \<Rightarrow> 'a event_wrapper_socket \<Rightarrow> 'a event_wrapper_socket" where
  "fire env i s =
     (let s0 = s\<lparr>store := (store s)[i := (store s ! i)\<lparr>scheduled := None\<rparr>]\<rparr>;
          s1 = emit_timeout env s0;
          s2 = (case user_callback (store s ! i) of
                  None \<Rightarrow> s1
                | Some k \<Rightarrow> (env k s1)\<lparr>callbacks_called := callbacks_called (env k s1) + 1\<rparr>);
          s3 = s2\<lparr>sock_timeout := None\<rparr>
      in s3\<lparr>store := (store s3)[i := (store s3 ! i)
              \<lparr>holds_timer := False, times_fired := times_fired (store s3 ! i) + 1\<rparr>]\<rparr>)"

definition due :: "nat \<Rightarrow> 'a event_wrapper_socket \<Rightarrow> bool" where
  "due i s = (i < length (store s) \<and>
              (case scheduled (store s ! i) of None \<Rightarrow> False | Some d \<Rightarrow> d \<le> now s))"

text \<open>One millisecond passes; the runtime then runs the timers that are due.\<close>

definition tick :: "'a callbacks \<Rightarrow> 'a event_wrapper_socket \<Rightarrow> 'a event_wrapper_socket" where
  "tick env s =
     foldl (\<lambda>s' i. if due i s' then fire env i s' else s') (s\<lparr>now := now s + 1\<rparr>)
       [0..<length (store s)]"

subsection \<open>Reading and writing\<close>

text \<open>
  \<open>_read(size)\<close>. An absent body and a body whose length the offset has reached (the empty
  string, which is falsy, among them) push the end-of-stream marker. Otherwise the slice
  from the offset is pushed, the offset advances by its length, and the marker is pushed
  as well once the offset has reached the length.
\<close>

definition push :: "'a list option \<Rightarrow> 'a event_wrapper_socket \<Rightarrow> 'a event_wrapper_socket" where
  "push c s = s\<lparr>pushed := pushed s @ [c]\<rparr>"

definition socket_read :: "nat \<Rightarrow> 'a event_wrapper_socket \<Rightarrow> 'a event_wrapper_socket" where
  "socket_read sz s =
     (case readBody s of
        None \<Rightarrow> push None s
      | Some b \<Rightarrow>
          if b = [] \<or> readOffset s \<ge> length b then push None s
          else (let chunk = take sz (drop (readOffset s) b);
                    s1 = push (Some chunk) s;
                    s2 = s1\<lparr>readOffset := readOffset s1 + length chunk\<rparr>
                in if readOffset s2 \<ge> length b then push None s2 else s2))"

text \<open>\<open>_write\<close>: the pending timeout is refreshed first; the rest is the sink's \<open>_write\<close>.\<close>

fun socket_write ::
  "(jsstring \<Rightarrow> 'e \<Rightarrow> buffer) \<Rightarrow> 'a event_wrapper_socket \<Rightarrow> 'e chunk \<Rightarrow> 'a event_wrapper_socket" where
  "socket_write conv s (StringChunk str e) =
     (let s1 = refresh_timeout s in
      s1\<lparr>sock_writeBodyAccumulator := sock_writeBodyAccumulator s1 @ [conv str e],
         sock_bytesWritten := sock_bytesWritten s1 + length str\<rparr>)"
| "socket_write conv s (BufferChunk b) =
     (let s1 = refresh_timeout s in
      s1\<lparr>sock_writeBodyAccumulator := sock_writeBodyAccumulator s1 @ [b],
         sock_bytesWritten := sock_bytesWritten s1 + length b\<rparr>)"

definition writeBufferContents :: "'a event_wrapper_socket \<Rightarrow> buffer" where
  "writeBufferContents s = concat (sock_writeBodyAccumulator s)"

subsection \<open>The consumer's loop and histories of an endpoint\<close>

text \<open>End-of-stream has been signalled when the last thing pushed is the marker.\<close>

definition ended :: "'a event_wrapper_socket \<Rightarrow> bool" where
  "ended s = (pushed s \<noteq> [] \<and> last (pushed s) = None)"

text \<open>The data chunks pushed so far, in order.\<close>

definition chunks_pushed :: "'a event_wrapper_socket \<Rightarrow> 'a list list" where
  "chunks_pushed s = concat (map (\<lambda>c. case c of None \<Rightarrow> [] | Some x \<Rightarrow> [x]) (pushed s))"

text \<open>
  Reading with chunk size \<open>n\<close> until end-of-stream. The loop need not end (with \<open>n = 0\<close>
  no read makes progress), so its result is optional.
\<close>

partial_function (option) read_until_end ::
  "nat \<Rightarrow> 'a event_wrapper_socket \<Rightarrow> 'a event_wrapper_socket option" where
  "read_until_end n s =
     (let s' = socket_read n s in if ended s' then Some s' else read_until_end n s')"

declare read_until_end.simps [code]

text \<open>The consecutive slices of a body, each of \<open>n\<close> elements but possibly the last.\<close>

function slices :: "nat \<Rightarrow> 'a list \<Rightarrow> 'a list list" where
  "slices n xs = (if n = 0 \<or> xs = [] then [] else take n xs # slices n (drop n xs))"
  by pat_completeness auto
termination
  by (relation "measure (\<lambda>(n, xs). length xs)") auto

declare slices.simps [simp del]

text \<open>
  What can happen to an endpoint, and a history as a list of such actions: calls of
  \<open>setTimeout\<close> (with the name of a callback or none), writes, reads, the registration of
  a \<open>'timeout'\<close> listener, and the passing of a millisecond.
\<close>

datatype 'e action = SetTimeout int "nat option" | Write "'e chunk" | Read nat | OnTimeout nat | Tick

fun step ::
  "'a callbacks \<Rightarrow> (jsstring \<Rightarrow> 'e \<Rightarrow> buffer) \<Rightarrow> 'a event_wrapper_socket \<Rightarrow> 'e action \<Rightarrow>
     'a event_wrapper_socket" where
  "step env conv s (SetTimeout ms cb) = snd (setTimeout ms cb s)"
| "step env conv s (Write c) = socket_write conv s c"
| "step env conv s (Read n) = socket_read n s"
| "step env conv s (OnTimeout k) = s\<lparr>timeout_listeners := timeout_listeners s @ [k]\<rparr>"
| "step env conv s Tick = tick env s"

definition run ::
  "'a callbacks \<Rightarrow> (jsstring \<Rightarrow> 'e \<Rightarrow> buffer) \<Rightarrow> 'a event_wrapper_socket \<Rightarrow> 'e action list \<Rightarrow>
     'a event_wrapper_socket" where
  "run env conv s as = foldl (step env conv) s as"

text \<open>An action that installs no timer: anything but \<open>setTimeout\<close> with a positive duration.\<close>

fun installs_no_timer :: "'e action \<Rightarrow> bool" where
  "installs_no_timer (SetTimeout ms cb) = (ms \<le> 0)"
| "installs_no_timer _ = True"

text \<open>
  A history of writes, reads, registrations of listeners and clock ticks in which fewer
  than \<open>n\<close> milliseconds pass between consecutive writes; \<open>k\<close> is the time since the last write (or since the timeout
  was installed).
\<close>

fun writes_spaced_less :: "nat \<Rightarrow> nat \<Rightarrow> 'e action list \<Rightarrow> bool" where
  "writes_spaced_less n k [] = True"
| "writes_spaced_less n k (Tick # as) = (k + 1 < n \<and> writes_spaced_less n (k + 1) as)"
| "writes_spaced_less n k (Write c # as) = writes_spaced_less n 0 as"
| "writes_spaced_less n k (Read m # as) = writes_spaced_less n k as"
| "writes_spaced_less n k (OnTimeout l # as) = writes_spaced_less n k as"
| "writes_spaced_less n k (SetTimeout ms cb # as) = False"

text \<open>
  Callbacks of a caller: callback 0 installs a new timeout of 10 milliseconds, callback 1
  writes one byte to the endpoint, any other does nothing.
\<close>

definition reentrant_callbacks :: "byte callbacks" where
  "reentrant_callbacks k s =
     (if k = 0 then snd (setTimeout 10 None s)
      else if k = 1 then socket_write buffer_from s (BufferChunk [33])
      else s)"

text \<open>Callbacks that do nothing to the endpoint.\<close>

definition no_callbacks :: "'a callbacks" where
  "no_callbacks k s = s"

subsection \<open>Consistency of the timers\<close>

text \<open>
  What holds of the store in every state an endpoint can reach: a \<open>BasicTimeout\<close> holds
  its timer exactly while the timer is scheduled; only the one the endpoint refers to
  does, and its callback has not run; no callback has run twice.
\<close>

definition timers_consistent :: "'a event_wrapper_socket \<Rightarrow> bool" where
  "timers_consistent s =
     (\<forall>i < length (store s).
        (holds_timer (store s ! i) \<longleftrightarrow> scheduled (store s ! i) \<noteq> None) \<and>
        (holds_timer (store s ! i) \<longrightarrow> sock_timeout s = Some i \<and> times_fired (store s ! i) = 0) \<and>
        times_fired (store s ! i) \<le> 1)"

text \<open>No timer is scheduled and no \<open>BasicTimeout\<close> holds one.\<close>

definition quiet :: "'a event_wrapper_socket \<Rightarrow> bool" where
  "quiet s = list_all (\<lambda>t. \<not> holds_timer t \<and> scheduled t = None) (store s)"

text \<open>
  The endpoint's timeout has duration \<open>n\<close> and was started \<open>k\<close> milliseconds ago, and it
  is the only timer scheduled.
\<close>

definition armed :: "nat \<Rightarrow> nat \<Rightarrow> 'a event_wrapper_socket \<Rightarrow> bool" where
  "armed n k s =
     (k < n \<and> n \<le> 2147483647 \<and>
      (case sock_timeout s of
         None \<Rightarrow> False
       | Some i \<Rightarrow>
           i < length (store s) \<and> holds_timer (store s ! i) \<and> timeoutMs (store s ! i) = n \<and>
           scheduled (store s ! i) = Some (now s + n - k) \<and>
           (\<forall>j < length (store s). j \<noteq> i \<longrightarrow> scheduled (store s ! j) = None)))"

text \<open>
  Callbacks and listeners that leave the endpoint's timers alone: whatever they do, the
  store of timers, the endpoint's \<open>_timeout\<close>, the clock and the record of emitted
  \<open>'timeout'\<close> events are as before when they return. A callback that calls \<open>setTimeout\<close>
  or writes to the endpoint is not of this kind.
\<close>

definition leaves_timers_alone :: "'a callbacks \<Rightarrow> bool" where
  "leaves_timers_alone env =
     (\<forall>k s. store (env k s) = store s \<and> sock_timeout (env k s) = sock_timeout s \<and>
            now (env k s) = now s \<and> timeouts_emitted (env k s) = timeouts_emitted s)"

section \<open>Facts about the runtime's encodings\<close>

lemma unat_of_nat16: "n < 65536 \<Longrightarrow> unat (of_nat n :: 16 word) = n"
  by (simp add: unat_of_nat take_bit_nat_eq_self)

lemma b64code_bound: "b64code i < 123"
  unfolding b64code_def by auto

lemma unat_b64char: "unat (b64char i) = b64code i"
  unfolding b64char_def using b64code_bound [of i] by (intro unat_of_nat16) simp

lemma b64val_b64char: "i < 64 \<Longrightarrow> b64val (b64char i) = Some i"
  unfolding b64val_def unat_b64char Let_def b64code_def by auto

lemma b64char_not_pad: "b64char i \<noteq> 61"
proof
  assume "b64char i = 61"
  then have "unat (b64char i) = 61" by simp
  then show False unfolding unat_b64char by (simp add: b64code_def split: if_splits)
qed

lemma byte_lt: "unat (a :: byte) < 256"
proof -
  have "unat a < 2 ^ LENGTH(8)" by (rule unsigned_less)
  then show ?thesis by simp
qed

lemma b64_first:
  fixes a b :: byte
  shows "of_nat (unat a div 4 * 4 + (unat a mod 4 * 16 + unat b div 16) div 16) = a"
proof -
  have "unat b div 16 < 16" using byte_lt [of b] by simp
  then have "(unat a mod 4 * 16 + unat b div 16) div 16 = unat a mod 4" by simp
  then show ?thesis by simp
qed

lemma b64_first_pad:
  fixes a :: byte
  shows "of_nat (unat a div 4 * 4 + (unat a mod 4 * 16) div 16) = a"
  by simp

lemma b64_second:
  fixes a b c :: byte
  shows "of_nat ((unat a mod 4 * 16 + unat b div 16) mod 16 * 16 + (unat b mod 16 * 4 + unat c div 64) div 4) = b"
proof -
  have "unat c div 64 < 4" using byte_lt [of c] by simp
  then have 1: "(unat b mod 16 * 4 + unat c div 64) div 4 = unat b mod 16" by simp
  have "unat b div 16 < 16" using byte_lt [of b] by simp
  then have 2: "(unat a mod 4 * 16 + unat b div 16) mod 16 = unat b div 16" by simp
  show ?thesis unfolding 1 2 by simp
qed

lemma b64_second_pad:
  fixes a b :: byte
  shows "of_nat ((unat a mod 4 * 16 + unat b div 16) mod 16 * 16 + (unat b mod 16 * 4) div 4) = b"
proof -
  have "unat b div 16 < 16" using byte_lt [of b] by simp
  then have 2: "(unat a mod 4 * 16 + unat b div 16) mod 16 = unat b div 16" by simp
  show ?thesis unfolding 2 by simp
qed

lemma b64_third:
  fixes b c :: byte
  shows "of_nat ((unat b mod 16 * 4 + unat c div 64) mod 4 * 64 + unat c mod 64) = c"
proof -
  have "unat c div 64 < 4" using byte_lt [of c] by simp
  then have 1: "(unat b mod 16 * 4 + unat c div 64) mod 4 = unat c div 64" by simp
  show ?thesis unfolding 1 by simp
qed

lemma sextet_bounds:
  fixes a b c :: byte
  shows "unat a div 4 < 64" "unat a mod 4 * 16 + unat b div 16 < 64"
  "unat b mod 16 * 4 + unat c div 64 < 64" "unat c mod 64 < 64"
  "unat a mod 4 * 16 < 64" "unat b mod 16 * 4 < 64"
  using byte_lt [of a] byte_lt [of b] byte_lt [of c] by simp_all

lemma decode_quad:
  assumes "v1 < 64" "v2 < 64" "v3 < 64" "v4 < 64"
  shows "base64_decode (b64char v1 # b64char v2 # b64char v3 # b64char v4 # cs) =
    map_option (\<lambda>rest. of_nat (v1 * 4 + v2 div 16) # of_nat (v2 mod 16 * 16 + v3 div 4) #
       of_nat (v3 mod 4 * 64 + v4) # rest) (base64_decode cs)"
  using assms by (simp add: b64val_b64char b64char_not_pad split: option.splits del: of_nat_add of_nat_mult)

lemma decode_pad1:
  assumes "v1 < 64" "v2 < 64" "v3 < 64"
  shows "base64_decode [b64char v1, b64char v2, b64char v3, 61] =
    Some [of_nat (v1 * 4 + v2 div 16), of_nat (v2 mod 16 * 16 + v3 div 4)]"
  using assms by (simp add: b64val_b64char b64char_not_pad del: of_nat_add of_nat_mult)

lemma decode_pad2:
  assumes "v1 < 64" "v2 < 64"
  shows "base64_decode [b64char v1, b64char v2, 61, 61] = Some [of_nat (v1 * 4 + v2 div 16)]"
  using assms by (simp add: b64val_b64char del: of_nat_add of_nat_mult)

lemma base64_roundtrip: "base64_decode (base64_encode bs) = Some bs"
proof (induction bs rule: base64_encode.induct)
  case 1
  then show ?case by simp
next
  case (2 a)
  show ?case
    by (simp only: base64_encode.simps decode_pad2 [OF sextet_bounds(1) sextet_bounds(5)] b64_first_pad)
next
  case (3 a b)
  show ?case
    by (simp only: base64_encode.simps decode_pad1 [OF sextet_bounds(1) sextet_bounds(2) sextet_bounds(6)]
        b64_first b64_second_pad)
next
  case (4 a b c bs)
  show ?case
    by (simp only: base64_encode.simps append_Cons append_Nil "4.IH" option.map
        decode_quad [OF sextet_bounds(1) sextet_bounds(2) sextet_bounds(3) sextet_bounds(4)]
        b64_first b64_second b64_third)
qed

lemma printable_toString:
  "\<not> list_ex (\<lambda>c. c < 32 \<or> c > 126) b \<Longrightarrow> utf8_decode_from None b = map ucast b"
proof (induction b)
  case Nil
  then show ?case by simp
next
  case (Cons c b)
  then have "c \<le> 126" by (simp add: not_less)
  then have "unat c < 0x80" by (simp add: word_le_nat_alt)
  with Cons show ?case by simp
qed

lemma digit_not_whitespace: "is_decimal_digit c \<Longrightarrow> \<not> is_js_whitespace c"
  by (auto simp: is_decimal_digit_def is_js_whitespace_def Let_def word_le_nat_alt)

lemma digit_value_decimal: "is_decimal_digit c \<Longrightarrow> digit_value 10 c = Some (unat c - 48)"
  by (auto simp: is_decimal_digit_def digit_value_def Let_def word_le_nat_alt)

lemma digits_prefix_decimal:
  "list_all is_decimal_digit s \<Longrightarrow> digits_prefix 10 s = map (\<lambda>c. unat c - 48) s"
  by (induction s) (simp_all add: digit_value_decimal)

lemma digits_value_decimal:
  "foldl (\<lambda>a d. a * 10 + d) n (map (\<lambda>c. unat c - 48) s) = foldl (\<lambda>a c. a * 10 + (unat c - 48)) n s"
  by (induction s arbitrary: n) simp_all

lemma digit_not_sign: "is_decimal_digit c \<Longrightarrow> c \<noteq> 0x2D \<and> c \<noteq> 0x2B \<and> c \<noteq> 0x78 \<and> c \<noteq> 0x58"
  by (auto simp: is_decimal_digit_def)

lemma parseInt_numeric:
  assumes "numeric_string s"
  shows "parseInt s = Number (int (decimal_value s))"
proof -
  from assms obtain c cs where s: "s = c # cs" and c: "is_decimal_digit c" and cs: "list_all is_decimal_digit cs"
    by (cases s) (auto simp: numeric_string_def)
  have t: "dropWhile is_js_whitespace s = s"
    using s digit_not_whitespace [OF c] by simp
  have nohex: "\<not> (case s of a # b # cs \<Rightarrow> a = 0x30 \<and> (b = 0x78 \<or> b = 0x58) | _ \<Rightarrow> False)"
    using s cs digit_not_sign by (cases cs) auto
  have ds: "digits_prefix 10 s = map (\<lambda>c. unat c - 48) s"
    using s c cs by (intro digits_prefix_decimal) simp
  have ne: "map (\<lambda>c. unat c - 48) s \<noteq> []" using s by simp
  show ?thesis
    unfolding parseInt_def t Let_def
    using nohex ds ne digit_not_sign [OF c] s
    by (simp add: digits_value_def decimal_value_def digits_value_decimal)
qed

section \<open>The body sink\<close>

lemma writer_write_accumulator:
  "writeBodyAccumulator (writer_write conv w c) = writeBodyAccumulator w @ [chunk_bytes conv c]"
  by (cases c) simp_all

lemma writer_write_counter:
  "bytesWritten (writer_write conv w c) = bytesWritten w + chunk_length c"
  by (cases c) simp_all

lemma writer_writes_accumulator:
  "writeBodyAccumulator (writer_writes conv w cs) = writeBodyAccumulator w @ map (chunk_bytes conv) cs"
  unfolding writer_writes_def
  by (induction cs arbitrary: w) (simp_all add: writer_write_accumulator)

lemma writer_writes_counter:
  "bytesWritten (writer_writes conv w cs) = bytesWritten w + sum_list (map chunk_length cs)"
  unfolding writer_writes_def
  by (induction cs arbitrary: w) (simp_all add: writer_write_counter)

lemma writer_writes_body:
  "writer_body (writer_writes conv new_body_writer cs) = concat (map (chunk_bytes conv) cs)"
  by (simp add: writer_body_def writer_writes_accumulator new_body_writer_def)

text \<open>
  Claim C5. For every sequence of \<open>_write\<close> calls on a fresh Response Body Sink, the
  materialized body is the concatenation, in call order, of the chunks' bytes: a string
  chunk contributes its conversion under the encoding supplied with it, a byte chunk
  contributes itself.
\<close>

theorem C5_body_is_concatenation_of_writes:
  "writer_body (writer_writes conv new_body_writer cs) = concat (map (chunk_bytes conv) cs)"
  by (simp add: writer_body_def writer_writes_accumulator new_body_writer_def)

section \<open>The request URL\<close>

text \<open>
  Claim C1, as stated, fails: \<open>_parseUrl\<close> tests \<open>queryStringParameters\<close> first and reads
  \<open>rawQueryString\<close> only in the \<open>else\<close> branch. For the format-B event of
  \<open>GET /y?a=1&a=2\<close>, which carries both, the URL is built from the structured map and is
  not the raw path followed by the raw query string.
\<close>

theorem C1_raw_query_not_preferred:
  "detectApiGatewayVersion merged_query_event = V2 \<and>
   rawPath merged_query_event = Some (js ''/y'') \<and>
   rawQueryString merged_query_event = Some (js ''a=1&a=2'') \<and>
   parseUrl merged_query_event = js ''/y?a=1%2C2'' \<and>
   parseUrl merged_query_event \<noteq> js ''/y'' @ js ''?'' @ js ''a=1&a=2''"
  by (simp add: detectApiGatewayVersion_def parseUrl_def merged_query_event_def
      URLSearchParams_toString_def urlencode_def urlencode_byte_def urlencoded_keeps_def
      hex_upper_def js_def utf8_of_codepoint_def is_high_surrogate_def is_low_surrogate_def)

text \<open>
  Claim C1, amended. For every format-B event (version \<open>2.0\<close>, a \<open>rawPath\<close> and no
  \<open>path\<close> field) with a non-empty \<open>rawQueryString\<close>: when the event has no structured
  query map, the URL is the raw path, \<open>?\<close> and the raw query string verbatim; when a
  structured map is present, the query is the URL-encoded map instead, and the URL is the
  raw path alone if that encoding is empty.
\<close>

theorem C1_url_of_v2_event:
  assumes "detectApiGatewayVersion e = V2" and "path e = None" and "rawPath e = Some p"
    and "rawQueryString e = Some q" and "q \<noteq> []"
  shows "(queryStringParameters e = None \<longrightarrow> parseUrl e = p @ js ''?'' @ q) \<and>
         (\<forall>es. queryStringParameters e = Some es \<longrightarrow>
            parseUrl e =
              (if URLSearchParams_toString (append_params es) \<noteq> []
               then p @ js ''?'' @ URLSearchParams_toString (append_params es) else p))"
  using assms by (simp add: parseUrl_def Let_def)

theorem C1_url_of_v2_event_witness:
  "parseUrl (merged_query_event\<lparr>queryStringParameters := None\<rparr>) = js ''/y?a=1&a=2'' \<and>
   parseUrl merged_query_event = js ''/y?a=1%2C2''"
  using C1_url_of_v2_event [of "merged_query_event\<lparr>queryStringParameters := None\<rparr>"
      "js ''/y''" "js ''a=1&a=2''"]
    C1_url_of_v2_event [of merged_query_event "js ''/y''" "js ''a=1&a=2''"]
  by (simp add: detectApiGatewayVersion_def merged_query_event_def
      URLSearchParams_toString_def urlencode_def urlencode_byte_def urlencoded_keeps_def
      hex_upper_def js_def utf8_of_codepoint_def is_high_surrogate_def is_low_surrogate_def)

section \<open>Version dispatch and cookies\<close>

lemma makeHeaders_entry_flat:
  "makeHeaders_entry m (key, v) = (case flat_value key v of None \<Rightarrow> m | Some x \<Rightarrow> m(key \<mapsto> x))"
  by (cases v) (simp_all add: flat_value_def Let_def)

lemma makeHeaders_entry_other:
  "k \<noteq> key \<Longrightarrow> makeHeaders_entry m (key, v) k = m k"
  by (simp add: makeHeaders_entry_flat del: makeHeaders_entry.simps split: option.splits)

lemma makeHeaders_entry_same:
  "makeHeaders_entry m (k, v) k = (case flat_value k v of None \<Rightarrow> m k | Some x \<Rightarrow> Some x)"
  by (simp add: makeHeaders_entry_flat del: makeHeaders_entry.simps split: option.splits)

lemma foldl_makeHeaders_absent:
  "k \<notin> fst ` set hs \<Longrightarrow> foldl makeHeaders_entry m hs k = m k"
proof (induction hs arbitrary: m)
  case Nil
  then show ?case by simp
next
  case (Cons h hs)
  obtain key v where h: "h = (key, v)" by (cases h)
  from Cons.prems h have "k \<noteq> key" and "k \<notin> fst ` set hs" by auto
  then show ?case
    using Cons.IH [of "makeHeaders_entry m (key, v)"] h
    by (simp add: makeHeaders_entry_other del: makeHeaders_entry.simps)
qed

lemma foldl_makeHeaders_present:
  assumes "distinct (map fst hs)" and "(k, v) \<in> set hs"
  shows "foldl makeHeaders_entry m hs k = (case flat_value k v of None \<Rightarrow> m k | Some x \<Rightarrow> Some x)"
  using assms
proof (induction hs arbitrary: m)
  case Nil
  then show ?case by simp
next
  case (Cons h hs)
  obtain key w where h: "h = (key, w)" by (cases h)
  show ?case
  proof (cases "(k, v) = h")
    case True
    with Cons.prems h have "k \<notin> fst ` set hs" by auto
    from foldl_makeHeaders_absent [OF this] True
    show ?thesis by (auto simp add: makeHeaders_entry_same simp del: makeHeaders_entry.simps)
  next
    case False
    with Cons.prems have mem: "(k, v) \<in> set hs" and d: "distinct (map fst hs)" by auto
    from mem Cons.prems h have "k \<noteq> key" by force
    with Cons.IH [OF d mem, of "makeHeaders_entry m h"] h
    show ?thesis
      by (simp add: makeHeaders_entry_other del: makeHeaders_entry.simps split: option.splits)
  qed
qed

lemma makeHeaders_present:
  "distinct (map fst (getHeaders r)) \<Longrightarrow> (k, v) \<in> set (getHeaders r) \<Longrightarrow>
     makeHeaders r k = flat_value k v"
  using foldl_makeHeaders_present [of "getHeaders r" k v Map.empty]
  by (simp add: makeHeaders_def split: option.splits)

lemma split_from_not_empty: "split_from sep cur s \<noteq> []"
  by (induction sep cur s rule: split_from.induct) simp_all

lemma String_split_not_empty: "sep \<noteq> [] \<Longrightarrow> String_split s sep \<noteq> []"
  by (simp add: String_split_def split_from_not_empty)

lemma separator_not_empty: "js ''; '' \<noteq> []"
  by (simp add: js_def)

lemma lambdaResponseV2_cookie:
  assumes "makeHeaders r (js ''set-cookie'') = Some (OString s)"
  shows "lambdaResponseV2 r =
     Inr \<lparr>v2_statusCode = lambdaStatusCode r, v2_body = fst (makeBodyResponse r),
          v2_headers = (makeHeaders r)(js ''set-cookie'' := None),
          v2_isBase64Encoded = snd (makeBodyResponse r),
          v2_cookies = Some (String_split s (js ''; ''))\<rparr>"
  using assms String_split_not_empty [OF separator_not_empty, of s]
  by (simp add: lambdaResponseV2_def Let_def split: prod.splits)

lemma lambdaResponseV2_no_cookie:
  assumes "makeHeaders r (js ''set-cookie'') = None"
  shows "lambdaResponseV2 r =
     Inr \<lparr>v2_statusCode = lambdaStatusCode r, v2_body = fst (makeBodyResponse r),
          v2_headers = makeHeaders r,
          v2_isBase64Encoded = snd (makeBodyResponse r),
          v2_cookies = None\<rparr>"
  using assms by (simp add: lambdaResponseV2_def Let_def split: prod.splits)

lemma lambdaResponseV2_number:
  assumes "makeHeaders r (js ''set-cookie'') = Some (ONumber n)"
  shows "lambdaResponseV2 r = Inl TypeError"
  using assms by (simp add: lambdaResponseV2_def Let_def split: prod.splits)

lemma lambdaResponseV2_cases:
  assumes "lambdaResponseV2 r = Inr res"
  shows "(makeHeaders r (js ''set-cookie'') = None \<and> v2_cookies res = None \<and>
            v2_headers res = makeHeaders r) \<or>
         (\<exists>s. makeHeaders r (js ''set-cookie'') = Some (OString s) \<and>
            v2_cookies res = Some (String_split s (js ''; '')) \<and>
            v2_headers res = (makeHeaders r)(js ''set-cookie'' := None))"
proof (cases "makeHeaders r (js ''set-cookie'')")
  case None
  from lambdaResponseV2_no_cookie [OF None] assms show ?thesis using None by auto
next
  case (Some x)
  show ?thesis
  proof (cases x)
    case (OString s)
    from lambdaResponseV2_cookie [of r s] Some OString assms show ?thesis by auto
  next
    case (ONumber n)
    from lambdaResponseV2_number [of r n] Some ONumber assms show ?thesis by simp
  qed
qed

text \<open>
  Claim C3. Serialization dispatches on the version of the bound request's event. For a
  format-A event the result has the A shape, which has no \<open>cookies\<close> field, and its
  headers are the flat header map as it is, a \<open>set-cookie\<close> entry included. For a
  format-B event whose flat map holds a string under \<open>set-cookie\<close> (for an array in the
  header store this is its elements joined with \<open>"; "\<close>), the result has the B shape,
  its \<open>cookies\<close> are that string split on \<open>"; "\<close>, a non-empty array, and \<open>set-cookie\<close>
  is removed from its headers; without a \<open>set-cookie\<close> header the result has no
  \<open>cookies\<close> field. No B result has an empty \<open>cookies\<close> array, and none has both a
  \<open>cookies\<close> field and a \<open>set-cookie\<close> header.
\<close>

theorem C3_version_dispatch:
  "(detectApiGatewayVersion (req_lambdaEvent r) = V1 \<longrightarrow>
      toLambdaResponse r = Inr (ResultV1 (lambdaResponse r)) \<and>
      v1_headers (lambdaResponse r) = makeHeaders r) \<and>
   (detectApiGatewayVersion (req_lambdaEvent r) = V2 \<and>
    makeHeaders r (js ''set-cookie'') = Some (OString s) \<longrightarrow>
      (\<exists>res. toLambdaResponse r = Inr (ResultV2 res) \<and>
         v2_cookies res = Some (String_split s (js ''; '')) \<and>
         String_split s (js ''; '') \<noteq> [] \<and>
         v2_headers res = (makeHeaders r)(js ''set-cookie'' := None))) \<and>
   (detectApiGatewayVersion (req_lambdaEvent r) = V2 \<and>
    makeHeaders r (js ''set-cookie'') = None \<longrightarrow>
      (\<exists>res. toLambdaResponse r = Inr (ResultV2 res) \<and> v2_cookies res = None \<and>
         v2_headers res = makeHeaders r)) \<and>
   (distinct (map fst (getHeaders r)) \<and> (js ''set-cookie'', HArray xs) \<in> set (getHeaders r) \<longrightarrow>
      makeHeaders r (js ''set-cookie'') = Some (OString (join (js ''; '') xs))) \<and>
   (distinct (map fst (getHeaders r)) \<and> (js ''set-cookie'', HString s) \<in> set (getHeaders r) \<longrightarrow>
      makeHeaders r (js ''set-cookie'') = Some (OString s)) \<and>
   (\<forall>res. toLambdaResponse r = Inr (ResultV2 res) \<longrightarrow>
      v2_cookies res \<noteq> Some [] \<and>
      (v2_cookies res = None \<or> v2_headers res (js ''set-cookie'') = None))"
proof -
  have a_shape: "detectApiGatewayVersion (req_lambdaEvent r) = V1 \<longrightarrow>
      toLambdaResponse r = Inr (ResultV1 (lambdaResponse r)) \<and>
      v1_headers (lambdaResponse r) = makeHeaders r"
    by (simp add: toLambdaResponse_def lambdaResponse_def Let_def split: prod.splits)
  have b_cookie: "detectApiGatewayVersion (req_lambdaEvent r) = V2 \<and>
      makeHeaders r (js ''set-cookie'') = Some (OString s) \<longrightarrow>
      (\<exists>res. toLambdaResponse r = Inr (ResultV2 res) \<and>
         v2_cookies res = Some (String_split s (js ''; '')) \<and>
         String_split s (js ''; '') \<noteq> [] \<and>
         v2_headers res = (makeHeaders r)(js ''set-cookie'' := None))"
  proof
    assume h: "detectApiGatewayVersion (req_lambdaEvent r) = V2 \<and>
      makeHeaders r (js ''set-cookie'') = Some (OString s)"
    then have "toLambdaResponse r = map_sum id ResultV2 (lambdaResponseV2 r)"
      by (simp add: toLambdaResponse_def)
    with lambdaResponseV2_cookie [of r s] h String_split_not_empty [OF separator_not_empty, of s]
    show "\<exists>res. toLambdaResponse r = Inr (ResultV2 res) \<and>
         v2_cookies res = Some (String_split s (js ''; '')) \<and>
         String_split s (js ''; '') \<noteq> [] \<and>
         v2_headers res = (makeHeaders r)(js ''set-cookie'' := None)"
      by simp
  qed
  have b_none: "detectApiGatewayVersion (req_lambdaEvent r) = V2 \<and>
      makeHeaders r (js ''set-cookie'') = None \<longrightarrow>
      (\<exists>res. toLambdaResponse r = Inr (ResultV2 res) \<and> v2_cookies res = None \<and>
         v2_headers res = makeHeaders r)"
  proof
    assume h: "detectApiGatewayVersion (req_lambdaEvent r) = V2 \<and>
      makeHeaders r (js ''set-cookie'') = None"
    then have "toLambdaResponse r = map_sum id ResultV2 (lambdaResponseV2 r)"
      by (simp add: toLambdaResponse_def)
    with lambdaResponseV2_no_cookie [of r] h
    show "\<exists>res. toLambdaResponse r = Inr (ResultV2 res) \<and> v2_cookies res = None \<and>
         v2_headers res = makeHeaders r"
      by simp
  qed
  have joined: "distinct (map fst (getHeaders r)) \<and>
      (js ''set-cookie'', HArray xs) \<in> set (getHeaders r) \<longrightarrow>
      makeHeaders r (js ''set-cookie'') = Some (OString (join (js ''; '') xs))"
    using makeHeaders_present [of r "js ''set-cookie''" "HArray xs"]
    by (simp add: flat_value_def)
  have single: "distinct (map fst (getHeaders r)) \<and>
      (js ''set-cookie'', HString s) \<in> set (getHeaders r) \<longrightarrow>
      makeHeaders r (js ''set-cookie'') = Some (OString s)"
    using makeHeaders_present [of r "js ''set-cookie''" "HString s"]
    by (simp add: flat_value_def)
  have never_both: "\<forall>res. toLambdaResponse r = Inr (ResultV2 res) \<longrightarrow>
      v2_cookies res \<noteq> Some [] \<and>
      (v2_cookies res = None \<or> v2_headers res (js ''set-cookie'') = None)"
  proof (intro allI impI)
    fix res
    assume "toLambdaResponse r = Inr (ResultV2 res)"
    then have "lambdaResponseV2 r = Inr res"
      by (cases "lambdaResponseV2 r") (simp_all add: toLambdaResponse_def split: if_splits)
    from lambdaResponseV2_cases [OF this]
    show "v2_cookies res \<noteq> Some [] \<and>
      (v2_cookies res = None \<or> v2_headers res (js ''set-cookie'') = None)"
      using String_split_not_empty [OF separator_not_empty]
        String_split_not_empty [OF separator_not_empty, THEN not_sym]
      by auto
  qed
  show ?thesis
    by (rule conjI [OF a_shape conjI [OF b_cookie conjI [OF b_none
          conjI [OF joined conjI [OF single never_both]]]]])
qed

theorem C3_version_dispatch_witness:
  "(\<exists>res. toLambdaResponse (cookie_response merged_query_event) = Inr (ResultV2 res) \<and>
      v2_cookies res = Some [js ''a=1'', js ''b=2''] \<and>
      v2_headers res (js ''set-cookie'') = None) \<and>
   toLambdaResponse (cookie_response rest_event) =
     Inr (ResultV1 (lambdaResponse (cookie_response rest_event))) \<and>
   v1_headers (lambdaResponse (cookie_response rest_event)) (js ''set-cookie'') =
     Some (OString (js ''a=1; b=2''))"
proof -
  have v2: "detectApiGatewayVersion (req_lambdaEvent (cookie_response merged_query_event)) = V2"
    by (simp add: cookie_response_def new_LambdaResponse_def merged_query_event_def
        detectApiGatewayVersion_def)
  have v1: "detectApiGatewayVersion (req_lambdaEvent (cookie_response rest_event)) = V1"
    by (simp add: cookie_response_def new_LambdaResponse_def rest_event_def
        detectApiGatewayVersion_def)
  have d: "distinct (map fst (getHeaders (cookie_response e)))" for e
    by (simp add: cookie_response_def cookie_headers_def js_def)
  have m: "(js ''set-cookie'', HArray [js ''a=1'', js ''b=2'']) \<in> set (getHeaders (cookie_response e))" for e
    by (simp add: cookie_response_def cookie_headers_def)
  have j: "join (js ''; '') [js ''a=1'', js ''b=2''] = js ''a=1; b=2''"
    by (simp add: js_def)
  have h: "makeHeaders (cookie_response e) (js ''set-cookie'') = Some (OString (js ''a=1; b=2''))" for e
    using C3_version_dispatch [of "cookie_response e" _ "[js ''a=1'', js ''b=2'']",
        THEN conjunct2, THEN conjunct2, THEN conjunct2, THEN conjunct1] d m
    by (simp only: j simp_thms)
  have sp: "String_split (js ''a=1; b=2'') (js ''; '') = [js ''a=1'', js ''b=2'']"
    by (simp add: String_split_def js_def)
  have 1: "\<exists>res. toLambdaResponse (cookie_response merged_query_event) = Inr (ResultV2 res) \<and>
      v2_cookies res = Some [js ''a=1'', js ''b=2''] \<and>
      v2_headers res (js ''set-cookie'') = None"
    using C3_version_dispatch [of "cookie_response merged_query_event" "js ''a=1; b=2''",
        THEN conjunct2, THEN conjunct1] v2 h [of merged_query_event]
    by (auto simp only: sp simp_thms fun_upd_same)
  have 2: "toLambdaResponse (cookie_response rest_event) =
     Inr (ResultV1 (lambdaResponse (cookie_response rest_event))) \<and>
     v1_headers (lambdaResponse (cookie_response rest_event)) (js ''set-cookie'') =
       Some (OString (js ''a=1; b=2''))"
    using C3_version_dispatch [of "cookie_response rest_event", THEN conjunct1] v1
      h [of rest_event]
    by (simp only: simp_thms)
  from 1 2 show ?thesis by (rule conjI)
qed

section \<open>Status code\<close>

lemma lambdaResponseV2_status:
  "lambdaResponseV2 r = Inr res \<Longrightarrow> v2_statusCode res = lambdaStatusCode r"
  by (auto simp: lambdaResponseV2_def Let_def split: prod.splits option.splits out_header.splits)

lemma lambdaResponseV2_returns:
  assumes "\<forall>n. makeHeaders r (js ''set-cookie'') \<noteq> Some (ONumber n)"
  shows "\<exists>res. lambdaResponseV2 r = Inr res"
proof (cases "makeHeaders r (js ''set-cookie'')")
  case None
  from lambdaResponseV2_no_cookie [OF None] show ?thesis by blast
next
  case (Some x)
  with assms obtain s where "x = OString s" by (cases x) auto
  with Some lambdaResponseV2_cookie [of r s] show ?thesis by blast
qed

text \<open>
  Claim C7. \<open>_lambdaStatusCode\<close> returns a numeric status as it was set, and parses a status
  stored as a numeric string (decimal digits; at most 15 of them, where the number is exact)
  to its integer value. The v1 serializer returns a non-zero numeric status as set. When the
  status is unset, \<open>_lambdaStatusCode\<close> returns undefined, the v1 serializer puts 200 in its
  result, and the v2 serializer leaves \<open>statusCode\<close> undefined in every result it returns,
  and it does return one unless the \<open>set-cookie\<close> header is a number.
\<close>

theorem C7_status_code_materialization:
  "(statusCode r = StatusNumber n \<longrightarrow> lambdaStatusCode r = Some n) \<and>
   (statusCode r = StatusNumber (Number k) \<and> k \<noteq> 0 \<longrightarrow>
      v1_statusCode (lambdaResponse r) = Number k) \<and>
   (statusCode r = StatusString s \<and> numeric_string s \<and> length s \<le> 15 \<longrightarrow>
      lambdaStatusCode r = Some (Number (int (decimal_value s)))) \<and>
   (statusCode r = StatusUndefined \<longrightarrow>
      lambdaStatusCode r = None \<and>
      v1_statusCode (lambdaResponse r) = Number 200 \<and>
      (\<forall>res. lambdaResponseV2 r = Inr res \<longrightarrow> v2_statusCode res = None) \<and>
      ((\<forall>c. makeHeaders r (js ''set-cookie'') \<noteq> Some (ONumber c)) \<longrightarrow>
         (\<exists>res. lambdaResponseV2 r = Inr res \<and> v2_statusCode res = None)))"
proof -
  have as_set: "statusCode r = StatusNumber n \<longrightarrow> lambdaStatusCode r = Some n"
    by (simp add: lambdaStatusCode_def)
  have v1_as_set: "statusCode r = StatusNumber (Number k) \<and> k \<noteq> 0 \<longrightarrow>
      v1_statusCode (lambdaResponse r) = Number k"
    by (simp add: lambdaResponse_def lambdaStatusCode_def Let_def split: prod.splits)
  have parsed: "statusCode r = StatusString s \<and> numeric_string s \<and> length s \<le> 15 \<longrightarrow>
      lambdaStatusCode r = Some (Number (int (decimal_value s)))"
    by (simp add: lambdaStatusCode_def parseInt_numeric)
  have unset: "statusCode r = StatusUndefined \<longrightarrow>
      lambdaStatusCode r = None \<and>
      v1_statusCode (lambdaResponse r) = Number 200 \<and>
      (\<forall>res. lambdaResponseV2 r = Inr res \<longrightarrow> v2_statusCode res = None) \<and>
      ((\<forall>c. makeHeaders r (js ''set-cookie'') \<noteq> Some (ONumber c)) \<longrightarrow>
         (\<exists>res. lambdaResponseV2 r = Inr res \<and> v2_statusCode res = None))"
  proof
    assume u: "statusCode r = StatusUndefined"
    then have n: "lambdaStatusCode r = None" by (simp add: lambdaStatusCode_def)
    have v1: "v1_statusCode (lambdaResponse r) = Number 200"
      by (simp add: lambdaResponse_def n Let_def split: prod.splits)
    have v2: "\<forall>res. lambdaResponseV2 r = Inr res \<longrightarrow> v2_statusCode res = None"
      using lambdaResponseV2_status [of r] n by simp
    have ex: "(\<forall>c. makeHeaders r (js ''set-cookie'') \<noteq> Some (ONumber c)) \<longrightarrow>
         (\<exists>res. lambdaResponseV2 r = Inr res \<and> v2_statusCode res = None)"
      using lambdaResponseV2_returns [of r] v2 by blast
    from n v1 v2 ex
    show "lambdaStatusCode r = None \<and>
      v1_statusCode (lambdaResponse r) = Number 200 \<and>
      (\<forall>res. lambdaResponseV2 r = Inr res \<longrightarrow> v2_statusCode res = None) \<and>
      ((\<forall>c. makeHeaders r (js ''set-cookie'') \<noteq> Some (ONumber c)) \<longrightarrow>
         (\<exists>res. lambdaResponseV2 r = Inr res \<and> v2_statusCode res = None))"
      by blast
  qed
  show ?thesis
    by (rule conjI [OF as_set conjI [OF v1_as_set conjI [OF parsed unset]]])
qed

theorem C7_status_code_materialization_witness:
  "lambdaStatusCode (text_response\<lparr>statusCode := StatusNumber (Number 201)\<rparr>) = Some (Number 201) \<and>
   v1_statusCode (lambdaResponse (text_response\<lparr>statusCode := StatusNumber (Number 201)\<rparr>)) = Number 201 \<and>
   lambdaStatusCode (text_response\<lparr>statusCode := StatusString (js ''404'')\<rparr>) = Some (Number 404) \<and>
   v1_statusCode (lambdaResponse (text_response\<lparr>statusCode := StatusUndefined\<rparr>)) = Number 200 \<and>
   (\<exists>res. lambdaResponseV2 (text_response\<lparr>statusCode := StatusUndefined\<rparr>) = Inr res \<and>
      v2_statusCode res = None)"
proof -
  have num: "numeric_string (js ''404'') \<and> length (js ''404'') \<le> 15"
    by (simp add: numeric_string_def is_decimal_digit_def js_def)
  have val: "int (decimal_value (js ''404'')) = 404"
    by (simp add: decimal_value_def js_def)
  have nocookie: "\<forall>c. makeHeaders (text_response\<lparr>statusCode := StatusUndefined\<rparr>) (js ''set-cookie'')
      \<noteq> Some (ONumber c)"
    by (simp add: makeHeaders_def text_response_def new_LambdaResponse_def)
  have 1: "lambdaStatusCode (text_response\<lparr>statusCode := StatusNumber (Number 201)\<rparr>) = Some (Number 201)"
    using C7_status_code_materialization
      [of "text_response\<lparr>statusCode := StatusNumber (Number 201)\<rparr>" "Number 201", THEN conjunct1]
    by simp
  have 2: "v1_statusCode (lambdaResponse (text_response\<lparr>statusCode := StatusNumber (Number 201)\<rparr>)) = Number 201"
    using C7_status_code_materialization
      [of "text_response\<lparr>statusCode := StatusNumber (Number 201)\<rparr>" _ 201,
       THEN conjunct2, THEN conjunct1]
    by simp
  have 3: "lambdaStatusCode (text_response\<lparr>statusCode := StatusString (js ''404'')\<rparr>) = Some (Number 404)"
    using C7_status_code_materialization
      [of "text_response\<lparr>statusCode := StatusString (js ''404'')\<rparr>" _ _ "js ''404''",
       THEN conjunct2, THEN conjunct2, THEN conjunct1] num
    by (simp add: val)
  have 4: "v1_statusCode (lambdaResponse (text_response\<lparr>statusCode := StatusUndefined\<rparr>)) = Number 200 \<and>
      (\<exists>res. lambdaResponseV2 (text_response\<lparr>statusCode := StatusUndefined\<rparr>) = Inr res \<and>
        v2_statusCode res = None)"
    using C7_status_code_materialization
      [of "text_response\<lparr>statusCode := StatusUndefined\<rparr>",
       THEN conjunct2, THEN conjunct2, THEN conjunct2] nocookie
    by simp
  from 1 2 3 4 show ?thesis by blast
qed

section \<open>Binary safety of the body\<close>

lemma printable_iff: "list_all printable_ascii b \<longleftrightarrow> \<not> list_ex (\<lambda>c. c < 32 \<or> c > 126) b"
  by (induction b) (auto simp: printable_ascii_def)

lemma makeBodyResponse_text:
  "list_all printable_ascii (writer_body (socket r)) \<Longrightarrow>
     makeBodyResponse r = (literal_text (writer_body (socket r)), False)"
  by (simp add: makeBodyResponse_def printable_iff buffer_toString_def printable_toString
      literal_text_def)

lemma makeBodyResponse_binary:
  "\<not> list_all printable_ascii (writer_body (socket r)) \<Longrightarrow>
     makeBodyResponse r = (base64_encode (writer_body (socket r)), True)"
  by (simp add: makeBodyResponse_def printable_iff)

lemma lambdaResponse_body:
  "v1_body (lambdaResponse r) = fst (makeBodyResponse r)"
  "v1_isBase64Encoded (lambdaResponse r) = snd (makeBodyResponse r)"
  by (simp_all add: lambdaResponse_def Let_def split: prod.splits)

lemma lambdaResponseV2_body:
  assumes "lambdaResponseV2 r = Inr res"
  shows "v2_body res = fst (makeBodyResponse r)"
    and "v2_isBase64Encoded res = snd (makeBodyResponse r)"
  using lambdaResponseV2_cases [OF assms] assms
    lambdaResponseV2_no_cookie [of r] lambdaResponseV2_cookie [of r]
  by auto

lemma toLambdaResponse_body:
  assumes "toLambdaResponse r = Inr res"
  shows "result_body res = fst (makeBodyResponse r)"
    and "result_isBase64Encoded res = snd (makeBodyResponse r)"
proof -
  have "result_body res = fst (makeBodyResponse r) \<and>
        result_isBase64Encoded res = snd (makeBodyResponse r)"
  proof (cases "detectApiGatewayVersion (req_lambdaEvent r) = V1")
    case True
    with assms have "res = ResultV1 (lambdaResponse r)" by (simp add: toLambdaResponse_def)
    then show ?thesis by (simp add: lambdaResponse_body)
  next
    case False
    with assms obtain res2 where "lambdaResponseV2 r = Inr res2" and "res = ResultV2 res2"
      by (cases "lambdaResponseV2 r") (auto simp: toLambdaResponse_def)
    with lambdaResponseV2_body [of r res2] show ?thesis by simp
  qed
  then show "result_body res = fst (makeBodyResponse r)"
    and "result_isBase64Encoded res = snd (makeBodyResponse r)" by simp_all
qed

lemma toLambdaResponse_returns:
  assumes "\<forall>c. makeHeaders r (js ''set-cookie'') \<noteq> Some (ONumber c)"
  shows "\<exists>res. toLambdaResponse r = Inr res"
proof (cases "detectApiGatewayVersion (req_lambdaEvent r) = V1")
  case True
  then show ?thesis by (simp add: toLambdaResponse_def)
next
  case False
  from lambdaResponseV2_returns [OF assms] obtain res2 where "lambdaResponseV2 r = Inr res2" ..
  with False show ?thesis by (simp add: toLambdaResponse_def)
qed

text \<open>
  Claim C2. Let \<open>B\<close> be the bytes accumulated by any sequence of writes to the response's
  sink. If every byte of \<open>B\<close> is in the printable ASCII range 32 to 126, the serialized
  result has \<open>isBase64Encoded\<close> false and its body is the literal text of \<open>B\<close>; otherwise
  \<open>isBase64Encoded\<close> is true and decoding the body from base64 gives back exactly \<open>B\<close>.
  This holds of the pair computed by \<open>_makeBodyResponse\<close>, of the result of the v1
  serializer, of every result of the v2 serializer and of every result of
  \<open>toLambdaResponse\<close>; the latter returns a result unless the \<open>set-cookie\<close> header is a
  number. The rule reads the bytes only: any two responses with the same accumulated
  bytes, whatever their headers, get the same body and flag.
\<close>

theorem C2_body_text_or_base64:
  assumes "socket r = writer_writes conv new_body_writer ws"
  shows "(list_all printable_ascii (concat (map (chunk_bytes conv) ws)) \<longrightarrow>
            makeBodyResponse r = (literal_text (concat (map (chunk_bytes conv) ws)), False)) \<and>
         (\<not> list_all printable_ascii (concat (map (chunk_bytes conv) ws)) \<longrightarrow>
            snd (makeBodyResponse r) \<and>
            base64_decode (fst (makeBodyResponse r)) = Some (concat (map (chunk_bytes conv) ws))) \<and>
         (\<forall>r'. writer_body (socket r') = writer_body (socket r) \<longrightarrow>
            makeBodyResponse r' = makeBodyResponse r) \<and>
         (list_all printable_ascii (concat (map (chunk_bytes conv) ws)) \<longrightarrow>
            v1_body (lambdaResponse r) = literal_text (concat (map (chunk_bytes conv) ws)) \<and>
            \<not> v1_isBase64Encoded (lambdaResponse r) \<and>
            (\<forall>res. lambdaResponseV2 r = Inr res \<longrightarrow>
               v2_body res = literal_text (concat (map (chunk_bytes conv) ws)) \<and>
               \<not> v2_isBase64Encoded res) \<and>
            (\<forall>res. toLambdaResponse r = Inr res \<longrightarrow>
               result_body res = literal_text (concat (map (chunk_bytes conv) ws)) \<and>
               \<not> result_isBase64Encoded res)) \<and>
         (\<not> list_all printable_ascii (concat (map (chunk_bytes conv) ws)) \<longrightarrow>
            v1_isBase64Encoded (lambdaResponse r) \<and>
            base64_decode (v1_body (lambdaResponse r)) = Some (concat (map (chunk_bytes conv) ws)) \<and>
            (\<forall>res. lambdaResponseV2 r = Inr res \<longrightarrow>
               v2_isBase64Encoded res \<and>
               base64_decode (v2_body res) = Some (concat (map (chunk_bytes conv) ws))) \<and>
            (\<forall>res. toLambdaResponse r = Inr res \<longrightarrow>
               result_isBase64Encoded res \<and>
               base64_decode (result_body res) = Some (concat (map (chunk_bytes conv) ws)))) \<and>
         ((\<forall>c. makeHeaders r (js ''set-cookie'') \<noteq> Some (ONumber c)) \<longrightarrow>
            (\<exists>res. toLambdaResponse r = Inr res))"
proof -
  let ?B = "concat (map (chunk_bytes conv) ws)"
  have b: "writer_body (socket r) = ?B"
    using assms by (simp add: writer_writes_body)
  have printable_case: "list_all printable_ascii ?B \<longrightarrow>
      makeBodyResponse r = (literal_text ?B, False)"
    using makeBodyResponse_text [of r] by (simp only: b) blast
  have binary_case: "\<not> list_all printable_ascii ?B \<longrightarrow>
      snd (makeBodyResponse r) \<and> base64_decode (fst (makeBodyResponse r)) = Some ?B"
  proof
    assume "\<not> list_all printable_ascii ?B"
    then have "\<not> list_all printable_ascii (writer_body (socket r))"
      by (simp only: b simp_thms)
    from makeBodyResponse_binary [OF this]
    have m: "makeBodyResponse r = (base64_encode ?B, True)"
      by (simp only: b)
    show "snd (makeBodyResponse r) \<and> base64_decode (fst (makeBodyResponse r)) = Some ?B"
      by (simp only: m snd_conv fst_conv base64_roundtrip simp_thms)
  qed
  have bytes_only: "\<forall>r'. writer_body (socket r') = writer_body (socket r) \<longrightarrow>
      makeBodyResponse r' = makeBodyResponse r"
    by (simp add: makeBodyResponse_def)
  have printable_results: "list_all printable_ascii ?B \<longrightarrow>
      v1_body (lambdaResponse r) = literal_text ?B \<and>
      \<not> v1_isBase64Encoded (lambdaResponse r) \<and>
      (\<forall>res. lambdaResponseV2 r = Inr res \<longrightarrow>
         v2_body res = literal_text ?B \<and> \<not> v2_isBase64Encoded res) \<and>
      (\<forall>res. toLambdaResponse r = Inr res \<longrightarrow>
         result_body res = literal_text ?B \<and> \<not> result_isBase64Encoded res)"
  proof
    assume "list_all printable_ascii ?B"
    with printable_case have m: "makeBodyResponse r = (literal_text ?B, False)" by blast
    show "v1_body (lambdaResponse r) = literal_text ?B \<and>
      \<not> v1_isBase64Encoded (lambdaResponse r) \<and>
      (\<forall>res. lambdaResponseV2 r = Inr res \<longrightarrow>
         v2_body res = literal_text ?B \<and> \<not> v2_isBase64Encoded res) \<and>
      (\<forall>res. toLambdaResponse r = Inr res \<longrightarrow>
         result_body res = literal_text ?B \<and> \<not> result_isBase64Encoded res)"
      by (simp add: lambdaResponse_body lambdaResponseV2_body toLambdaResponse_body m)
  qed
  have binary_results: "\<not> list_all printable_ascii ?B \<longrightarrow>
      v1_isBase64Encoded (lambdaResponse r) \<and>
      base64_decode (v1_body (lambdaResponse r)) = Some ?B \<and>
      (\<forall>res. lambdaResponseV2 r = Inr res \<longrightarrow>
         v2_isBase64Encoded res \<and> base64_decode (v2_body res) = Some ?B) \<and>
      (\<forall>res. toLambdaResponse r = Inr res \<longrightarrow>
         result_isBase64Encoded res \<and> base64_decode (result_body res) = Some ?B)"
  proof
    assume "\<not> list_all printable_ascii ?B"
    with binary_case have m: "snd (makeBodyResponse r)"
      "base64_decode (fst (makeBodyResponse r)) = Some ?B" by blast+
    show "v1_isBase64Encoded (lambdaResponse r) \<and>
      base64_decode (v1_body (lambdaResponse r)) = Some ?B \<and>
      (\<forall>res. lambdaResponseV2 r = Inr res \<longrightarrow>
         v2_isBase64Encoded res \<and> base64_decode (v2_body res) = Some ?B) \<and>
      (\<forall>res. toLambdaResponse r = Inr res \<longrightarrow>
         result_isBase64Encoded res \<and> base64_decode (result_body res) = Some ?B)"
      by (simp add: lambdaResponse_body lambdaResponseV2_body toLambdaResponse_body m)
  qed
  have returns: "(\<forall>c. makeHeaders r (js ''set-cookie'') \<noteq> Some (ONumber c)) \<longrightarrow>
      (\<exists>res. toLambdaResponse r = Inr res)"
    using toLambdaResponse_returns [of r] by blast
  show ?thesis
    by (rule conjI [OF printable_case conjI [OF binary_case conjI [OF bytes_only
          conjI [OF printable_results conjI [OF binary_results returns]]]]])
qed

theorem C2_body_text_or_base64_witness:
  "makeBodyResponse text_response = (js ''ok'', False) \<and>
   v1_body (lambdaResponse text_response) = js ''ok'' \<and>
   \<not> v1_isBase64Encoded (lambdaResponse text_response) \<and>
   snd (makeBodyResponse binary_response) \<and>
   base64_decode (fst (makeBodyResponse binary_response)) = Some [111, 107, 10] \<and>
   v1_isBase64Encoded (lambdaResponse binary_response) \<and>
   base64_decode (v1_body (lambdaResponse binary_response)) = Some [111, 107, 10] \<and>
   (\<exists>res. toLambdaResponse binary_response = Inr res)"
proof -
  have t: "socket text_response =
      writer_writes buffer_from new_body_writer [StringChunk (js ''ok'') Utf8]"
    by (simp add: text_response_def)
  have b: "socket binary_response =
      writer_writes buffer_from new_body_writer [StringChunk (js ''ok'') Utf8, BufferChunk [10]]"
    by (simp add: binary_response_def)
  have tb: "concat (map (chunk_bytes buffer_from) [StringChunk (js ''ok'') Utf8]) = [111, 107]"
    by (simp add: js_def utf8_of_codepoint_def is_high_surrogate_def is_low_surrogate_def)
  have bb: "concat (map (chunk_bytes buffer_from) [StringChunk (js ''ok'') Utf8, BufferChunk [10]])
      = [111, 107, 10]"
    by (simp add: js_def utf8_of_codepoint_def is_high_surrogate_def is_low_surrogate_def)
  have tp: "list_all printable_ascii [111, 107]"
    by (simp add: printable_ascii_def)
  have bp: "\<not> list_all printable_ascii [111, 107, 10]"
    by (simp add: printable_ascii_def)
  have lt: "literal_text [111, 107] = js ''ok''"
    by (simp add: literal_text_def js_def)
  have nc: "\<forall>c. makeHeaders binary_response (js ''set-cookie'') \<noteq> Some (ONumber c)"
    by (simp add: makeHeaders_def binary_response_def new_LambdaResponse_def)
  note T = C2_body_text_or_base64 [OF t]
  note B = C2_body_text_or_base64 [OF b]
  have 1: "makeBodyResponse text_response = (js ''ok'', False)"
    using T [THEN conjunct1] tp
    by (simp only: tb lt simp_thms)
  have 2: "snd (makeBodyResponse binary_response) \<and>
      base64_decode (fst (makeBodyResponse binary_response)) = Some [111, 107, 10]"
    using B [THEN conjunct2, THEN conjunct1] bp
    by (simp only: bb simp_thms)
  have 3: "v1_body (lambdaResponse text_response) = js ''ok'' \<and>
      \<not> v1_isBase64Encoded (lambdaResponse text_response)"
    using T [THEN conjunct2, THEN conjunct2, THEN conjunct2, THEN conjunct1] tp
    by (simp only: tb lt simp_thms)
  have 4: "v1_isBase64Encoded (lambdaResponse binary_response) \<and>
      base64_decode (v1_body (lambdaResponse binary_response)) = Some [111, 107, 10]"
    using B [THEN conjunct2, THEN conjunct2, THEN conjunct2, THEN conjunct2, THEN conjunct1] bp
    by (simp only: bb simp_thms)
  have 5: "\<exists>res. toLambdaResponse binary_response = Inr res"
    using B [THEN conjunct2, THEN conjunct2, THEN conjunct2, THEN conjunct2, THEN conjunct2] nc
    by blast
  from 1 2 3 4 5 show ?thesis by blast
qed

section \<open>Ending the response twice\<close>

lemma LambdaResponse_end_begun: "ending_begun (LambdaResponse_end conv r c)"
  by (simp add: LambdaResponse_end_def sink_end_def inherited_end_def ending_begun_def Let_def)

lemma LambdaResponse_end_closed: "socketEnded (LambdaResponse_end conv r c)"
  by (simp add: LambdaResponse_end_def sink_end_def)

lemma ended_call_ignored:
  assumes "ending_begun r" and "socketEnded r"
  shows "do_call conv r a = r"
  using assms
  by (cases a) (simp_all add: inherited_write_def LambdaResponse_end_def inherited_end_def sink_end_def)

lemma ended_calls_ignored:
  assumes "ending_begun r" and "socketEnded r"
  shows "foldl (do_call conv) r calls = r"
  by (induction calls) (simp_all add: ended_call_ignored [OF assms])

lemma writes_before_end:
  "\<not> ending_begun (foldl (inherited_write conv) (new_LambdaResponse e) ws)"
proof (induction ws rule: rev_induct)
  case Nil
  then show ?case by (simp add: ending_begun_def new_LambdaResponse_def)
next
  case (snoc c ws)
  then show ?case by (simp add: inherited_write_def ending_begun_def)
qed

text \<open>
  Claim C6. After \<open>end()\<close> has been called on a response, ending has begun and the sink is
  closed; a second \<open>end()\<close>, with or without a chunk, returns the response as it was, so the
  finalized body and the finish signals are the same; and so does any further sequence of
  writes and \<open>end\<close> calls, so the response never goes back to writing. A response that is
  ended after any writes has emitted exactly one finish signal, for the body it then had.
\<close>

theorem C6_second_end_changes_nothing:
  "LambdaResponse_end conv (LambdaResponse_end conv r c1) c2 = LambdaResponse_end conv r c1 \<and>
   writer_body (socket (LambdaResponse_end conv (LambdaResponse_end conv r c1) c2)) =
     writer_body (socket (LambdaResponse_end conv r c1)) \<and>
   finishSignals (LambdaResponse_end conv (LambdaResponse_end conv r c1) c2) =
     finishSignals (LambdaResponse_end conv r c1) \<and>
   ending_begun (LambdaResponse_end conv r c1) \<and>
   foldl (do_call conv) (LambdaResponse_end conv r c1) calls = LambdaResponse_end conv r c1 \<and>
   phase (foldl (do_call conv) (LambdaResponse_end conv r c1) calls) \<noteq> Writing \<and>
   phase (LambdaResponse_end conv (foldl (inherited_write conv) (new_LambdaResponse e) ws) c1)
     = Finished \<and>
   finishSignals (LambdaResponse_end conv (foldl (inherited_write conv) (new_LambdaResponse e) ws) c1)
     = [writer_body (socket
          (LambdaResponse_end conv (foldl (inherited_write conv) (new_LambdaResponse e) ws) c1))]"
proof -
  let ?r1 = "LambdaResponse_end conv r c1"
  have b: "ending_begun ?r1" by (rule LambdaResponse_end_begun)
  have cl: "socketEnded ?r1" by (rule LambdaResponse_end_closed)
  have again: "LambdaResponse_end conv ?r1 c2 = ?r1"
    using ended_call_ignored [OF b cl, of conv "CallEnd c2"] by simp
  have rest: "foldl (do_call conv) ?r1 calls = ?r1"
    by (rule ended_calls_ignored [OF b cl])
  have nw: "phase ?r1 \<noteq> Writing" using b by (auto simp: ending_begun_def)
  let ?r0 = "foldl (inherited_write conv) (new_LambdaResponse e) ws"
  have open0: "\<not> ending_begun ?r0" by (rule writes_before_end)
  have fs0: "finishSignals ?r0 = []"
    by (induction ws rule: rev_induct) (simp_all add: new_LambdaResponse_def inherited_write_def)
  have fin: "phase (LambdaResponse_end conv ?r0 c1) = Finished"
    using open0 by (simp add: LambdaResponse_end_def sink_end_def inherited_end_def Let_def)
  have one: "finishSignals (LambdaResponse_end conv ?r0 c1) =
      [writer_body (socket (LambdaResponse_end conv ?r0 c1))]"
    using open0 fs0
    by (simp add: LambdaResponse_end_def sink_end_def inherited_end_def Let_def split: option.splits)
  show ?thesis
    unfolding again rest
    using b nw fin one by (intro conjI) simp_all
qed

section \<open>Reading the request body\<close>

lemma slices_Nil [simp]: "slices n [] = []"
  by (subst slices.simps) simp

lemma slices_step: "0 < n \<Longrightarrow> xs \<noteq> [] \<Longrightarrow> slices n xs = take n xs # slices n (drop n xs)"
  by (subst slices.simps) simp

lemma concat_slices: "0 < n \<Longrightarrow> concat (slices n xs) = xs"
proof (induction n xs rule: slices.induct)
  case (1 n xs)
  show ?case
  proof (cases "xs = []")
    case True
    then show ?thesis by simp
  next
    case False
    with 1 show ?thesis by (simp add: slices_step)
  qed
qed

lemma socket_read_exhausted:
  assumes "readBody s = Some B" and "length B \<le> readOffset s"
  shows "socket_read n s = push None s"
  using assms by (simp add: socket_read_def)

lemma socket_read_absent:
  assumes "readBody s = None"
  shows "socket_read n s = push None s"
  using assms by (simp add: socket_read_def)

lemma socket_read_slice:
  assumes "readBody s = Some B" and "readOffset s < length B"
  shows "pushed (socket_read n s) =
           pushed s @ Some (take n (drop (readOffset s) B)) #
             (if length B \<le> readOffset s + n then [None] else [])"
    and "readOffset (socket_read n s) = readOffset s + length (take n (drop (readOffset s) B))"
    and "readBody (socket_read n s) = Some B"
proof -
  from assms have ne: "B \<noteq> []" by auto
  have len: "length (take n (drop (readOffset s) B)) = min n (length B - readOffset s)"
    by simp
  show "pushed (socket_read n s) =
           pushed s @ Some (take n (drop (readOffset s) B)) #
             (if length B \<le> readOffset s + n then [None] else [])"
    using assms ne by (auto simp: socket_read_def push_def Let_def min_def)
  show "readOffset (socket_read n s) = readOffset s + length (take n (drop (readOffset s) B))"
    using assms ne by (auto simp: socket_read_def push_def Let_def)
  show "readBody (socket_read n s) = Some B"
    using assms ne by (auto simp: socket_read_def push_def Let_def)
qed

lemma read_until_end_reads_rest:
  assumes "0 < n" and "readBody s = Some B" and "readOffset s \<le> length B"
  shows "\<exists>s'. read_until_end n s = Some s' \<and>
           pushed s' = pushed s @ map Some (slices n (drop (readOffset s) B)) @ [None] \<and>
           readOffset s' = length B"
  using assms(2,3)
proof (induction "length B - readOffset s" arbitrary: s rule: less_induct)
  case less
  show ?case
  proof (cases "readOffset s < length B")
    case False
    with less.prems have full: "length B \<le> readOffset s" and eq: "readOffset s = length B" by auto
    have r: "socket_read n s = push None s"
      by (rule socket_read_exhausted [OF less.prems(1) full])
    have e: "ended (push None s)" by (simp add: ended_def push_def)
    have "read_until_end n s = Some (push None s)"
      by (subst read_until_end.simps) (simp add: r e)
    then show ?thesis using eq by (simp add: push_def)
  next
    case True
    let ?c = "take n (drop (readOffset s) B)"
    let ?s = "socket_read n s"
    note rd = socket_read_slice [OF less.prems(1) True, of n]
    show ?thesis
    proof (cases "length B \<le> readOffset s + n")
      case last: True
      then have c: "?c = drop (readOffset s) B" by simp
      have sl: "slices n (drop (readOffset s) B) = [drop (readOffset s) B]"
        using True last \<open>0 < n\<close> by (simp add: slices_step)
      have p: "pushed ?s = pushed s @ [Some ?c, None]" using rd(1) last by simp
      then have e: "ended ?s" by (simp add: ended_def)
      have "read_until_end n s = Some ?s"
        by (subst read_until_end.simps) (simp add: e)
      moreover have "readOffset ?s = length B" using rd(2) True last by simp
      ultimately show ?thesis using p c sl by simp
    next
      case more: False
      then have lc: "length ?c = n" by simp
      have p: "pushed ?s = pushed s @ [Some ?c]" using rd(1) more by simp
      then have e: "\<not> ended ?s" by (simp add: ended_def)
      have off: "readOffset ?s = readOffset s + n" using rd(2) lc by simp
      have "length B - readOffset ?s < length B - readOffset s"
        using off more \<open>0 < n\<close> by simp
      moreover have "readOffset ?s \<le> length B" using off more by simp
      ultimately obtain s' where s': "read_until_end n ?s = Some s'"
        "pushed s' = pushed ?s @ map Some (slices n (drop (readOffset ?s) B)) @ [None]"
        "readOffset s' = length B"
        using less.hyps [of ?s] rd(3) by blast
      have u: "read_until_end n s = Some s'"
        by (subst read_until_end.simps) (simp add: e s'(1))
      have "drop (readOffset s) B \<noteq> []" using True by simp
      then have sl: "slices n (drop (readOffset s) B) =
          ?c # slices n (drop (readOffset s + n) B)"
        using \<open>0 < n\<close> by (simp add: slices_step add.commute)
      show ?thesis using u s'(2,3) p off sl by simp
    qed
  qed
qed

text \<open>
  Claim C4. For every request body \<open>B\<close> and every chunk size \<open>n > 0\<close>, reading a fresh
  endpoint with \<open>read(n)\<close> until end-of-stream ends; what it has pushed is the consecutive
  slices of \<open>B\<close> of size \<open>n\<close>, whose concatenation is \<open>B\<close>, followed by one end-of-stream
  marker, and the offset is then the length of \<open>B\<close>. Each single read with data left
  pushes the slice that starts at the current offset, the end of the previous read, and
  advances the offset by its length; when that slice reaches the end of \<open>B\<close> the marker is
  pushed in the same call. With no body the first read signals end-of-stream.
\<close>

theorem C4_reads_reconstruct_body:
  assumes "0 < n"
  shows "(\<exists>s'. read_until_end n (new_EventWrapperSocket (Some B)) = Some s' \<and>
            pushed s' = map Some (slices n B) @ [None] \<and>
            concat (slices n B) = B \<and> readOffset s' = length B) \<and>
         (\<forall>s. readBody s = Some B \<and> readOffset s < length B \<longrightarrow>
            pushed (socket_read n s) =
              pushed s @ Some (take n (drop (readOffset s) B)) #
                (if length B \<le> readOffset s + n then [None] else []) \<and>
            readOffset (socket_read n s) =
              readOffset s + length (take n (drop (readOffset s) B))) \<and>
         (\<exists>s'. read_until_end n (new_EventWrapperSocket None) = Some s' \<and> pushed s' = [None])"
proof -
  let ?s = "new_EventWrapperSocket (Some B)"
  have "readBody ?s = Some B" and "readOffset ?s \<le> length B"
    by (simp_all add: new_EventWrapperSocket_def)
  from read_until_end_reads_rest [OF assms this]
  have whole: "\<exists>s'. read_until_end n ?s = Some s' \<and>
            pushed s' = map Some (slices n B) @ [None] \<and>
            concat (slices n B) = B \<and> readOffset s' = length B"
    using concat_slices [OF assms, of B] by (simp add: new_EventWrapperSocket_def)
  have each: "\<forall>s. readBody s = Some B \<and> readOffset s < length B \<longrightarrow>
            pushed (socket_read n s) =
              pushed s @ Some (take n (drop (readOffset s) B)) #
                (if length B \<le> readOffset s + n then [None] else []) \<and>
            readOffset (socket_read n s) =
              readOffset s + length (take n (drop (readOffset s) B))"
    using socket_read_slice(1,2) by blast
  let ?e = "new_EventWrapperSocket None"
  have r: "socket_read n ?e = push None ?e"
    by (rule socket_read_absent) (simp add: new_EventWrapperSocket_def)
  have "read_until_end n ?e = Some (push None ?e)"
    by (subst read_until_end.simps) (simp add: r ended_def push_def)
  moreover have "pushed (push None ?e) = [None]"
    by (simp add: push_def new_EventWrapperSocket_def)
  ultimately have absent: "\<exists>s'. read_until_end n ?e = Some s' \<and> pushed s' = [None]"
    by blast
  show ?thesis
    by (rule conjI [OF whole conjI [OF each absent]])
qed

theorem C4_reads_reconstruct_body_witness:
  "(0::nat) < 2 \<and>
   (\<exists>s'. read_until_end 2 (new_EventWrapperSocket (Some (js ''hello''))) = Some s' \<and>
      pushed s' = [Some (js ''he''), Some (js ''ll''), Some (js ''o''), None] \<and>
      readOffset s' = 5)"
proof -
  have n: "(0::nat) < 2" by simp
  have sl: "slices 2 (js ''hello'') = [js ''he'', js ''ll'', js ''o'']"
    by (simp add: js_def slices_step)
  have len: "length (js ''hello'') = 5"
    by (simp add: js_def)
  from C4_reads_reconstruct_body [OF n, of "js ''hello''", THEN conjunct1]
  show ?thesis
    by (simp only: sl len list.map append_Cons append_Nil simp_thms n) blast
qed

section \<open>The bytes-written counter\<close>

lemma refresh_timeout_write_fields:
  "sock_writeBodyAccumulator (refresh_timeout s) = sock_writeBodyAccumulator s"
  "sock_bytesWritten (refresh_timeout s) = sock_bytesWritten s"
  by (simp_all add: refresh_timeout_def BasicTimeout_refresh_def split: option.splits)

lemma socket_write_counter:
  "sock_bytesWritten (socket_write conv s c) = sock_bytesWritten s + chunk_length c"
  by (cases c) (simp_all add: Let_def refresh_timeout_write_fields)

lemma socket_write_accumulator:
  "sock_writeBodyAccumulator (socket_write conv s c) =
     sock_writeBodyAccumulator s @ [chunk_bytes conv c]"
  by (cases c) (simp_all add: Let_def refresh_timeout_write_fields)

text \<open>
  Claim C8 does not hold of the code. Both \<open>_write\<close> methods add \<open>chunk.length\<close> to
  \<open>bytesWritten\<close>; for a string chunk that is its number of UTF-16 code units, not the
  number of bytes appended. After the single call \<open>_write(s, 'utf8', cb)\<close>, with \<open>s\<close> the string
  of the one code unit U+00E9, the accumulated body has two bytes and the counter is 1, on
  the Response Body Sink and on the Simulated Duplex Endpoint alike.
\<close>

theorem C8_counter_counts_code_units:
  "writer_body (writer_write buffer_from new_body_writer (StringChunk [0xE9] Utf8)) = [0xC3, 0xA9] \<and>
   bytesWritten (writer_write buffer_from new_body_writer (StringChunk [0xE9] Utf8)) = 1 \<and>
   writeBufferContents
     (socket_write buffer_from (new_EventWrapperSocket None :: byte event_wrapper_socket)
        (StringChunk [0xE9] Utf8)) = [0xC3, 0xA9] \<and>
   sock_bytesWritten
     (socket_write buffer_from (new_EventWrapperSocket None :: byte event_wrapper_socket)
        (StringChunk [0xE9] Utf8)) = 1"
  by (simp add: writer_body_def new_body_writer_def writeBufferContents_def
      new_EventWrapperSocket_def refresh_timeout_def utf8_of_codepoint_def
      is_high_surrogate_def is_low_surrogate_def)

subsection \<open>With callbacks that leave the timers alone, every reachable state is consistent\<close>

lemma consistent_new: "timers_consistent (new_EventWrapperSocket b)"
  by (simp add: timers_consistent_def new_EventWrapperSocket_def)

lemma timers_consistent_cong:
  "store s' = store s \<Longrightarrow> sock_timeout s' = sock_timeout s \<Longrightarrow>
     timers_consistent s' = timers_consistent s"
  by (simp add: timers_consistent_def)

lemma consistent_unheld:
  assumes "timers_consistent s" and "j < length (store s)" and "\<not> holds_timer (store s ! j)"
  shows "scheduled (store s ! j) = None"
  using assms by (simp add: timers_consistent_def)

lemma consistent_not_referred:
  assumes "timers_consistent s" and "j < length (store s)" and "sock_timeout s \<noteq> Some j"
  shows "\<not> holds_timer (store s ! j)"
  using assms by (auto simp: timers_consistent_def)

lemma quietI:
  assumes "\<And>j. j < length (store s) \<Longrightarrow> \<not> holds_timer (store s ! j) \<and> scheduled (store s ! j) = None"
  shows "quiet s"
  using assms by (simp add: quiet_def list_all_length)

lemma cancel_timeout_quiet:
  assumes "timers_consistent s"
  shows "quiet (cancel_timeout s)"
proof (cases "sock_timeout s")
  case None
  have "quiet s"
  proof (rule quietI)
    fix j assume j: "j < length (store s)"
    from None have "sock_timeout s \<noteq> Some j" by simp
    from consistent_not_referred [OF assms j this] consistent_unheld [OF assms j]
    show "\<not> holds_timer (store s ! j) \<and> scheduled (store s ! j) = None" by simp
  qed
  with None show ?thesis by (simp add: cancel_timeout_def)
next
  case (Some i)
  show ?thesis
  proof (cases "i < length (store s) \<and> holds_timer (store s ! i)")
    case True
    let ?s = "s\<lparr>store := (store s)[i := (store s ! i)\<lparr>scheduled := None, holds_timer := False\<rparr>]\<rparr>"
    have c: "cancel_timeout s = ?s"
      using Some True by (simp add: cancel_timeout_def BasicTimeout_cancel_def)
    have "quiet ?s"
    proof (rule quietI)
      fix j assume "j < length (store ?s)"
      then have j: "j < length (store s)" by simp
      show "\<not> holds_timer (store ?s ! j) \<and> scheduled (store ?s ! j) = None"
      proof (cases "j = i")
        case True
        with j show ?thesis by simp
      next
        case False
        with Some have "sock_timeout s \<noteq> Some j" by simp
        from consistent_not_referred [OF assms j this] consistent_unheld [OF assms j] False
        show ?thesis by simp
      qed
    qed
    with c show ?thesis by simp
  next
    case False
    have c: "cancel_timeout s = s"
      using Some by (simp add: cancel_timeout_def BasicTimeout_cancel_def if_not_P [OF False])
    have "quiet s"
    proof (rule quietI)
      fix j assume j: "j < length (store s)"
      have "\<not> holds_timer (store s ! j)"
      proof (cases "j = i")
        case True
        with False j show ?thesis by simp
      next
        case ne: False
        with Some have "sock_timeout s \<noteq> Some j" by simp
        from consistent_not_referred [OF assms j this] show ?thesis .
      qed
      with consistent_unheld [OF assms j]
      show "\<not> holds_timer (store s ! j) \<and> scheduled (store s ! j) = None" by simp
    qed
    with c show ?thesis by simp
  qed
qed

lemma quiet_consistent:
  assumes "quiet s" and "\<forall>t \<in> set (store s). times_fired t \<le> 1"
  shows "timers_consistent s"
  using assms by (auto simp: quiet_def timers_consistent_def list_all_length)

lemma cancel_timeout_fired:
  "length (store (cancel_timeout s)) = length (store s)"
  "j < length (store s) \<Longrightarrow> times_fired (store (cancel_timeout s) ! j) = times_fired (store s ! j)"
  by (auto simp: cancel_timeout_def BasicTimeout_cancel_def nth_list_update split: option.splits)

lemma cancel_timeout_consistent:
  assumes "timers_consistent s"
  shows "timers_consistent (cancel_timeout s)"
proof (rule quiet_consistent [OF cancel_timeout_quiet [OF assms]])
  show "\<forall>t \<in> set (store (cancel_timeout s)). times_fired t \<le> 1"
    using assms
    by (auto simp: in_set_conv_nth timers_consistent_def cancel_timeout_fired)
qed

lemma setTimeout_consistent:
  assumes "timers_consistent s"
  shows "timers_consistent (snd (setTimeout ms cb s))"
proof (cases "ms \<le> 0")
  case True
  then show ?thesis
    using cancel_timeout_consistent [OF assms]
    by (auto simp: setTimeout_def new_BasicTimeout_def Let_def)
next
  case False
  let ?s1 = "cancel_timeout s"
  have q: "quiet ?s1" by (rule cancel_timeout_quiet [OF assms])
  have c: "timers_consistent ?s1" by (rule cancel_timeout_consistent [OF assms])
  from False have "snd (setTimeout ms cb s) =
      ?s1\<lparr>store := store ?s1 @
          [\<lparr>timeoutMs = nat ms, holds_timer = True,
            scheduled = Some (now ?s1 + runtime_delay (nat ms)),
            times_fired = 0, user_callback = cb\<rparr>],
        sock_timeout := Some (length (store ?s1))\<rparr>"
    by (simp add: setTimeout_def new_BasicTimeout_def Let_def)
  then show ?thesis
    using q c by (auto simp: timers_consistent_def quiet_def list_all_length nth_append)
qed

lemma refresh_timeout_consistent:
  assumes "timers_consistent s"
  shows "timers_consistent (refresh_timeout s)"
  using assms
  by (auto simp: refresh_timeout_def BasicTimeout_refresh_def timers_consistent_def
      nth_list_update split: option.splits)

lemma socket_write_store:
  "store (socket_write conv s c) = store (refresh_timeout s)"
  "sock_timeout (socket_write conv s c) = sock_timeout s"
  "now (socket_write conv s c) = now s"
  "timeouts_emitted (socket_write conv s c) = timeouts_emitted s"
  by (cases c; simp add: Let_def refresh_timeout_def BasicTimeout_refresh_def split: option.splits)+

lemma refresh_timeout_ref: "sock_timeout (refresh_timeout s) = sock_timeout s"
  by (simp add: refresh_timeout_def BasicTimeout_refresh_def split: option.splits)

lemma socket_write_consistent:
  assumes "timers_consistent s"
  shows "timers_consistent (socket_write conv s c)"
proof -
  have "timers_consistent (socket_write conv s c) = timers_consistent (refresh_timeout s)"
    by (rule timers_consistent_cong) (simp_all add: socket_write_store refresh_timeout_ref)
  then show ?thesis using refresh_timeout_consistent [OF assms] by simp
qed

lemma socket_read_store:
  "store (socket_read n s) = store s"
  "sock_timeout (socket_read n s) = sock_timeout s"
  "now (socket_read n s) = now s"
  "timeouts_emitted (socket_read n s) = timeouts_emitted s"
  by (simp_all add: socket_read_def push_def Let_def split: option.splits)

lemma socket_read_consistent:
  "timers_consistent s \<Longrightarrow> timers_consistent (socket_read n s)"
  using timers_consistent_cong [of "socket_read n s" s] by (simp add: socket_read_store)

lemma consistent_only_one:
  assumes "timers_consistent s" and "i < length (store s)" and "scheduled (store s ! i) \<noteq> None"
    and "j < length (store s)" and "j \<noteq> i"
  shows "\<not> holds_timer (store s ! j)" and "scheduled (store s ! j) = None"
proof -
  from assms(1,2,3) have "sock_timeout s = Some i"
    by (simp add: timers_consistent_def)
  with assms(1,4,5) show "\<not> holds_timer (store s ! j)"
    by (auto simp: timers_consistent_def)
  with assms(1,4) show "scheduled (store s ! j) = None"
    by (simp add: timers_consistent_def)
qed

lemma alone_fields:
  assumes "leaves_timers_alone env"
  shows "store (env k s) = store s" and "sock_timeout (env k s) = sock_timeout s"
    and "now (env k s) = now s" and "timeouts_emitted (env k s) = timeouts_emitted s"
  using assms by (simp_all add: leaves_timers_alone_def)

lemma fold_alone_fields:
  assumes "leaves_timers_alone env"
  shows "store (foldl (\<lambda>s' k. env k s') s ks) = store s"
    and "sock_timeout (foldl (\<lambda>s' k. env k s') s ks) = sock_timeout s"
    and "now (foldl (\<lambda>s' k. env k s') s ks) = now s"
    and "timeouts_emitted (foldl (\<lambda>s' k. env k s') s ks) = timeouts_emitted s"
  by (induction ks arbitrary: s) (simp_all add: alone_fields [OF assms])

lemma emit_timeout_fields:
  assumes "leaves_timers_alone env"
  shows "store (emit_timeout env s) = store s"
    and "sock_timeout (emit_timeout env s) = sock_timeout s"
    and "now (emit_timeout env s) = now s"
    and "timeouts_emitted (emit_timeout env s) = timeouts_emitted s @ [now s]"
  by (simp_all add: emit_timeout_def fold_alone_fields [OF assms])

lemma fire_fields:
  assumes "leaves_timers_alone env" and "i < length (store s)"
  shows "store (fire env i s) =
           (store s)[i := (store s ! i)\<lparr>scheduled := None, holds_timer := False,
                                         times_fired := times_fired (store s ! i) + 1\<rparr>]"
    and "sock_timeout (fire env i s) = None"
    and "now (fire env i s) = now s"
    and "timeouts_emitted (fire env i s) = timeouts_emitted s @ [now s]"
  using assms(2)
  by (simp_all add: fire_def Let_def emit_timeout_fields [OF assms(1)] alone_fields [OF assms(1)]
      split: option.splits)

lemma fire_consistent:
  assumes "leaves_timers_alone env" and "timers_consistent s" and "due i s"
  shows "timers_consistent (fire env i s)"
proof -
  from assms(3) have i: "i < length (store s)" and sch: "scheduled (store s ! i) \<noteq> None"
    by (auto simp: due_def split: option.splits)
  note ff = fire_fields [OF assms(1) i]
  from assms(2) i sch have f0: "times_fired (store s ! i) = 0"
    by (simp add: timers_consistent_def)
  have "(holds_timer (store (fire env i s) ! j) \<longleftrightarrow> scheduled (store (fire env i s) ! j) \<noteq> None) \<and>
        (holds_timer (store (fire env i s) ! j) \<longrightarrow>
           sock_timeout (fire env i s) = Some j \<and> times_fired (store (fire env i s) ! j) = 0) \<and>
        times_fired (store (fire env i s) ! j) \<le> 1"
    if j: "j < length (store (fire env i s))" for j
  proof (cases "j = i")
    case True
    with i f0 show ?thesis by (simp add: ff)
  next
    case False
    from j have j': "j < length (store s)" by (simp add: ff)
    from consistent_only_one [OF assms(2) i sch j' False] assms(2) j' False
    show ?thesis by (simp add: ff timers_consistent_def)
  qed
  then show ?thesis by (simp add: timers_consistent_def)
qed

lemma fold_fire_consistent:
  assumes "leaves_timers_alone env" and "timers_consistent s"
  shows "timers_consistent (foldl (\<lambda>s' i. if due i s' then fire env i s' else s') s xs)"
  using assms(2) by (induction xs arbitrary: s) (simp_all add: fire_consistent [OF assms(1)])

lemma tick_consistent:
  assumes "leaves_timers_alone env" and "timers_consistent s"
  shows "timers_consistent (tick env s)"
proof -
  from assms(2) have "timers_consistent (s\<lparr>now := now s + 1\<rparr>)"
    using timers_consistent_cong [of "s\<lparr>now := now s + 1\<rparr>" s] by simp
  then show ?thesis unfolding tick_def by (rule fold_fire_consistent [OF assms(1)])
qed

lemma step_consistent:
  assumes "leaves_timers_alone env" and "timers_consistent s"
  shows "timers_consistent (step env conv s a)"
proof (cases a)
  case (OnTimeout k)
  have "timers_consistent (s\<lparr>timeout_listeners := timeout_listeners s @ [k]\<rparr>) = timers_consistent s"
    by (rule timers_consistent_cong) simp_all
  with OnTimeout assms(2) show ?thesis by simp
qed (simp_all add: setTimeout_consistent socket_write_consistent socket_read_consistent
      tick_consistent assms)

lemma run_consistent:
  assumes "leaves_timers_alone env" and "timers_consistent s"
  shows "timers_consistent (run env conv s as)"
  using assms(2) unfolding run_def
  by (induction as arbitrary: s) (simp_all add: step_consistent [OF assms(1)])

lemma reachable_consistent:
  "leaves_timers_alone env \<Longrightarrow> timers_consistent (run env conv (new_EventWrapperSocket b) as)"
  by (rule run_consistent [OF _ consistent_new])

subsection \<open>An endpoint without a scheduled timer stays silent\<close>

lemma quiet_nth:
  "quiet s \<Longrightarrow> j < length (store s) \<Longrightarrow> \<not> holds_timer (store s ! j) \<and> scheduled (store s ! j) = None"
  by (simp add: quiet_def list_all_length)

lemma quiet_cancel: "quiet s \<Longrightarrow> cancel_timeout s = s"
  by (auto simp: cancel_timeout_def BasicTimeout_cancel_def dest: quiet_nth split: option.splits)

lemma quiet_refresh: "quiet s \<Longrightarrow> refresh_timeout s = s"
  by (auto simp: refresh_timeout_def BasicTimeout_refresh_def dest: quiet_nth split: option.splits)

lemma fold_no_due:
  "\<forall>i \<in> set xs. \<not> due i s \<Longrightarrow> foldl (\<lambda>s' i. if due i s' then fire env i s' else s') s xs = s"
  by (induction xs) simp_all

lemma tick_no_due:
  assumes "\<And>i. i < length (store s) \<Longrightarrow> \<not> due i (s\<lparr>now := now s + 1\<rparr>)"
  shows "tick env s = s\<lparr>now := now s + 1\<rparr>"
  unfolding tick_def using assms by (intro fold_no_due) simp

lemma quiet_tick:
  assumes "quiet s"
  shows "tick env s = s\<lparr>now := now s + 1\<rparr>"
proof (rule tick_no_due)
  fix i assume "i < length (store s)"
  from quiet_nth [OF assms this] show "\<not> due i (s\<lparr>now := now s + 1\<rparr>)"
    by (simp add: due_def)
qed

lemma quiet_cong: "store s' = store s \<Longrightarrow> quiet s' = quiet s"
  by (simp add: quiet_def)

lemma quiet_step:
  assumes "quiet s" and "installs_no_timer a"
  shows "quiet (step env conv s a)" and "timeouts_emitted (step env conv s a) = timeouts_emitted s"
proof -
  have "quiet (step env conv s a) \<and> timeouts_emitted (step env conv s a) = timeouts_emitted s"
  proof (cases a)
    case (SetTimeout ms cb)
    with assms(2) have "ms \<le> 0" by simp
    then have "snd (setTimeout ms cb s) = s"
      by (auto simp: setTimeout_def new_BasicTimeout_def quiet_cancel [OF assms(1)])
    with SetTimeout assms(1) show ?thesis by simp
  next
    case (Write c)
    have "quiet (socket_write conv s c) = quiet s"
      by (rule quiet_cong) (simp add: socket_write_store quiet_refresh [OF assms(1)])
    with Write assms(1) show ?thesis by (simp add: socket_write_store)
  next
    case (Read m)
    have "quiet (socket_read m s) = quiet s"
      by (rule quiet_cong) (simp add: socket_read_store)
    with Read assms(1) show ?thesis by (simp add: socket_read_store)
  next
    case Tick
    have "quiet (s\<lparr>now := now s + 1\<rparr>) = quiet s"
      by (rule quiet_cong) simp
    with Tick assms(1) show ?thesis by (simp add: quiet_tick [OF assms(1)])
  next
    case (OnTimeout l)
    have "quiet (s\<lparr>timeout_listeners := timeout_listeners s @ [l]\<rparr>) = quiet s"
      by (rule quiet_cong) simp
    with OnTimeout assms(1) show ?thesis by simp
  qed
  then show "quiet (step env conv s a)" and "timeouts_emitted (step env conv s a) = timeouts_emitted s"
    by simp_all
qed

lemma quiet_run:
  assumes "quiet s" and "list_all installs_no_timer as"
  shows "timeouts_emitted (run env conv s as) = timeouts_emitted s"
  using assms unfolding run_def
proof (induction as arbitrary: s)
  case Nil
  then show ?case by simp
next
  case (Cons a as)
  from Cons.prems have a: "installs_no_timer a" and r: "list_all installs_no_timer as" by simp_all
  from Cons.IH [OF quiet_step(1) [OF Cons.prems(1) a] r] quiet_step(2) [OF Cons.prems(1) a]
  show ?case by simp
qed

section \<open>Timers of the endpoint\<close>

lemmas timer_eval = run_def setTimeout_def new_BasicTimeout_def cancel_timeout_def
  BasicTimeout_cancel_def refresh_timeout_def BasicTimeout_refresh_def new_EventWrapperSocket_def
  Let_def tick_def due_def fire_def emit_timeout_def runtime_delay_def

text \<open>
  Claim C9 does not hold of the code. The function that \<open>setTimeout\<close> hands to its
  \<open>BasicTimeout\<close> calls the caller's callback and clears \<open>this._timeout\<close> afterwards. If
  the callback itself calls \<open>setTimeout(10)\<close>, the handle of the timeout it installs is
  cleared while its timer stays scheduled. Here \<open>setTimeout(3, callback)\<close> fires at time 3;
  then \<open>setTimeout(7)\<close> and \<open>setTimeout(0)\<close> are called, which cancels the timeout of 7
  milliseconds alone; in the ten milliseconds that follow no timeout is installed, and
  \<open>'timeout'\<close> is emitted at time 13.
\<close>

theorem C9_timeout_emitted_after_cancel:
  "timeouts_emitted
     (run reentrant_callbacks buffer_from (new_EventWrapperSocket None)
        [SetTimeout 3 (Some 0), Tick, Tick, Tick, SetTimeout 7 None, SetTimeout 0 None]) = [3] \<and>
   list_all installs_no_timer
     ([Tick, Tick, Tick, Tick, Tick, Tick, Tick, Tick, Tick, Tick] :: encoding action list) \<and>
   timeouts_emitted
     (run reentrant_callbacks buffer_from
        (run reentrant_callbacks buffer_from (new_EventWrapperSocket None)
           [SetTimeout 3 (Some 0), Tick, Tick, Tick, SetTimeout 7 None, SetTimeout 0 None])
        [Tick, Tick, Tick, Tick, Tick, Tick, Tick, Tick, Tick, Tick]) = [3, 13]"
  by (simp add: timer_eval reentrant_callbacks_def)

subsection \<open>A timeout that is refreshed in time does not fire\<close>

lemma runtime_delay_in_range: "1 \<le> n \<Longrightarrow> n \<le> 2147483647 \<Longrightarrow> runtime_delay n = n"
  by (simp add: runtime_delay_def)

lemma armedD:
  assumes "armed n k s"
  obtains i where "k < n" and "n \<le> 2147483647" and "sock_timeout s = Some i"
    and "i < length (store s)"
    and "holds_timer (store s ! i)" and "timeoutMs (store s ! i) = n"
    and "scheduled (store s ! i) = Some (now s + n - k)"
    and "\<And>j. j < length (store s) \<Longrightarrow> j \<noteq> i \<Longrightarrow> scheduled (store s ! j) = None"
  using assms by (auto simp: armed_def split: option.splits)

lemma armedI:
  assumes "k < n" and "n \<le> 2147483647" and "sock_timeout s = Some i" and "i < length (store s)"
    and "holds_timer (store s ! i)" and "timeoutMs (store s ! i) = n"
    and "scheduled (store s ! i) = Some (now s + n - k)"
    and "\<And>j. j < length (store s) \<Longrightarrow> j \<noteq> i \<Longrightarrow> scheduled (store s ! j) = None"
  shows "armed n k s"
  using assms by (simp add: armed_def)

lemma armed_setTimeout:
  assumes "timers_consistent s" and "0 < n" and "n \<le> 2147483647"
  shows "armed (nat n) 0 (snd (setTimeout n cb s))"
proof -
  let ?c = "cancel_timeout s"
  let ?s1 = "snd (setTimeout n cb s)"
  have q: "quiet ?c" by (rule cancel_timeout_quiet [OF assms(1)])
  have rd: "runtime_delay (nat n) = nat n"
    using assms(2,3) by (intro runtime_delay_in_range) simp_all
  have s1: "?s1 = ?c\<lparr>store := store ?c @
          [\<lparr>timeoutMs = nat n, holds_timer = True, scheduled = Some (now ?c + nat n),
            times_fired = 0, user_callback = cb\<rparr>],
        sock_timeout := Some (length (store ?c))\<rparr>"
    using assms(2) by (simp add: setTimeout_def new_BasicTimeout_def Let_def rd)
  show ?thesis
  proof (rule armedI [where i = "length (store ?c)"])
    show "0 < nat n" using assms(2) by simp
    show "nat n \<le> 2147483647" using assms(3) by simp
    show "sock_timeout ?s1 = Some (length (store ?c))" by (simp add: s1)
    show "length (store ?c) < length (store ?s1)" by (simp add: s1)
    show "holds_timer (store ?s1 ! length (store ?c))" by (simp add: s1)
    show "timeoutMs (store ?s1 ! length (store ?c)) = nat n" by (simp add: s1)
    show "scheduled (store ?s1 ! length (store ?c)) = Some (now ?s1 + nat n - 0)" by (simp add: s1)
    fix j assume "j < length (store ?s1)" and "j \<noteq> length (store ?c)"
    then have j: "j < length (store ?c)" by (simp add: s1)
    from quiet_nth [OF q j] j show "scheduled (store ?s1 ! j) = None"
      by (simp add: s1 nth_append)
  qed
qed

lemma armed_tick:
  assumes "armed n k s" and "k + 1 < n"
  shows "tick env s = s\<lparr>now := now s + 1\<rparr>" and "armed n (k + 1) (tick env s)"
proof -
  from assms(1) obtain i where "k < n" and n: "n \<le> 2147483647" and i: "sock_timeout s = Some i"
    "i < length (store s)"
    "holds_timer (store s ! i)" "timeoutMs (store s ! i) = n"
    "scheduled (store s ! i) = Some (now s + n - k)"
    and others: "\<And>j. j < length (store s) \<Longrightarrow> j \<noteq> i \<Longrightarrow> scheduled (store s ! j) = None"
    by (rule armedD) blast
  show t: "tick env s = s\<lparr>now := now s + 1\<rparr>"
  proof (rule tick_no_due)
    fix j assume j: "j < length (store s)"
    show "\<not> due j (s\<lparr>now := now s + 1\<rparr>)"
    proof (cases "j = i")
      case True
      with i(5) assms(2) show ?thesis by (auto simp: due_def)
    next
      case False
      from others [OF j False] show ?thesis by (simp add: due_def)
    qed
  qed
  show "armed n (k + 1) (tick env s)"
    unfolding t
  proof (rule armedI [where i = i])
    show "k + 1 < n" by (rule assms(2))
    show "scheduled (store (s\<lparr>now := now s + 1\<rparr>) ! i) = Some (now (s\<lparr>now := now s + 1\<rparr>) + n - (k + 1))"
      using i(5) assms(2) by simp
  qed (use n i others in simp_all)
qed

lemma armed_write:
  assumes "armed n k s"
  shows "armed n 0 (socket_write conv s c)"
proof -
  from assms obtain i where k: "k < n" and n: "n \<le> 2147483647"
    and i: "sock_timeout s = Some i" "i < length (store s)"
    "holds_timer (store s ! i)" "timeoutMs (store s ! i) = n"
    and "scheduled (store s ! i) = Some (now s + n - k)"
    and others: "\<And>j. j < length (store s) \<Longrightarrow> j \<noteq> i \<Longrightarrow> scheduled (store s ! j) = None"
    by (rule armedD) blast
  have rd: "runtime_delay n = n"
    using k n by (intro runtime_delay_in_range) simp_all
  have st: "store (socket_write conv s c) =
      (store s)[i := (store s ! i)\<lparr>scheduled := Some (now s + n)\<rparr>]"
    using i by (simp add: socket_write_store refresh_timeout_def BasicTimeout_refresh_def rd)
  show ?thesis
  proof (rule armedI [where i = i])
    show "0 < n" using k by simp
    show "sock_timeout (socket_write conv s c) = Some i" using i by (simp add: socket_write_store(2))
    show "scheduled (store (socket_write conv s c) ! i) = Some (now (socket_write conv s c) + n - 0)"
      using i by (simp add: st socket_write_store(3))
    fix j assume "j < length (store (socket_write conv s c))" and ne: "j \<noteq> i"
    then have "j < length (store s)" by (simp add: st)
    from others [OF this ne] ne show "scheduled (store (socket_write conv s c) ! j) = None"
      by (simp add: st)
  qed (use n i in \<open>simp_all add: st\<close>)
qed

lemma armed_read:
  assumes "armed n k s"
  shows "armed n k (socket_read m s)"
  using assms by (auto simp: armed_def socket_read_store split: option.splits)

lemma armed_run:
  assumes "armed n k s" and "writes_spaced_less n k as"
  shows "timeouts_emitted (run env conv s as) = timeouts_emitted s \<and>
         (\<exists>k'. armed n k' (run env conv s as))"
  using assms unfolding run_def
proof (induction as arbitrary: k s)
  case Nil
  then show ?case by auto
next
  case (Cons a as)
  show ?case
  proof (cases a)
    case (SetTimeout ms cb)
    with Cons.prems show ?thesis by simp
  next
    case (OnTimeout l)
    with Cons.prems have r: "writes_spaced_less n k as" by simp
    have "armed n k (s\<lparr>timeout_listeners := timeout_listeners s @ [l]\<rparr>)"
      using Cons.prems(1) by (auto simp: armed_def split: option.splits)
    from Cons.IH [OF this r] OnTimeout
    show ?thesis by simp
  next
    case (Write c)
    with Cons.prems have "writes_spaced_less n 0 as" by simp
    from Cons.IH [OF armed_write [OF Cons.prems(1)] this] Write
    show ?thesis by (simp add: socket_write_store)
  next
    case (Read m)
    with Cons.prems have "writes_spaced_less n k as" by simp
    from Cons.IH [OF armed_read [OF Cons.prems(1)] this] Read
    show ?thesis by (simp add: socket_read_store)
  next
    case Tick
    with Cons.prems have k: "k + 1 < n" and r: "writes_spaced_less n (k + 1) as" by simp_all
    from Cons.IH [OF armed_tick(2) [OF Cons.prems(1) k] r] Tick
    show ?thesis by (simp add: armed_tick(1) [OF Cons.prems(1) k])
  qed
qed

lemma write_refreshes_pending:
  assumes "sock_timeout s = Some i" and "i < length (store s)" and "holds_timer (store s ! i)"
  shows "scheduled (store (socket_write conv s c) ! i) =
           Some (now s + runtime_delay (timeoutMs (store s ! i)))"
  using assms by (simp add: socket_write_store refresh_timeout_def BasicTimeout_refresh_def)

lemma write_does_not_rearm:
  assumes "timers_consistent s" and "j < length (store s)" and "scheduled (store s ! j) = None"
  shows "scheduled (store (socket_write conv s c) ! j) = None"
proof -
  from assms have "\<not> holds_timer (store s ! j)" by (simp add: timers_consistent_def)
  with assms(3) show ?thesis
    by (auto simp: socket_write_store refresh_timeout_def BasicTimeout_refresh_def
        nth_list_update split: option.splits)
qed

lemma consistent_fired_once:
  assumes "timers_consistent s"
  shows "list_all (\<lambda>t. times_fired t \<le> 1) (store s)"
  using assms by (simp add: timers_consistent_def list_all_length)

subsection \<open>Writes and the pending timeout\<close>

lemma no_callbacks_alone: "leaves_timers_alone no_callbacks"
  by (simp add: leaves_timers_alone_def no_callbacks_def)

text \<open>
  A callback that writes to the endpoint while its timeout fires: the write refreshes the
  timer that is firing, whose handle is dropped only afterwards, and the timer fires again.
\<close>

lemma write_in_callback_fires_again:
  "timeouts_emitted
     (run reentrant_callbacks buffer_from (new_EventWrapperSocket None)
        [SetTimeout 3 (Some 1), Tick, Tick, Tick, Tick, Tick, Tick]) = [3, 6]"
  by (simp add: timer_eval reentrant_callbacks_def)

text \<open>
  Claim C10, as stated, fails: the runtime replaces a duration above \<open>2^31 - 1\<close>
  milliseconds by one millisecond, and the code passes the duration on as it is. A timeout
  installed with \<open>setTimeout(2147483648)\<close> fires after one millisecond, although less than
  that duration has passed since it was installed.
\<close>

theorem C10_long_timeout_fires_at_once:
  "writes_spaced_less 2147483648 0 ([Tick] :: encoding action list) \<and>
   timeouts_emitted
     (run no_callbacks buffer_from (new_EventWrapperSocket (None :: byte list option))
        [SetTimeout 2147483648 None]) = [] \<and>
   timeouts_emitted
     (run no_callbacks buffer_from
        (run no_callbacks buffer_from (new_EventWrapperSocket (None :: byte list option))
           [SetTimeout 2147483648 None])
        [Tick]) = [1]"
  by (simp add: timer_eval no_callbacks_def)

text \<open>
  Claim C10, amended. Take an endpoint whose callbacks and \<open>'timeout'\<close> listeners leave its
  timers alone, in any state it can reach. A write refreshes a pending timeout: the timer
  is scheduled again at the time of the write plus the delay the runtime gave it. After
  \<open>setTimeout(n)\<close> with \<open>1 \<le> n \<le> 2^31 - 1\<close> that delay is \<open>n\<close>, and no \<open>'timeout'\<close> is
  emitted during a history of writes, reads, registrations of listeners and clock ticks in
  which fewer than \<open>n\<close> milliseconds pass between consecutive writes. A timer that is not scheduled, because it
  has fired or was cancelled, is not scheduled by a write, and no timer has fired twice.
\<close>

theorem C10_write_refreshes_timeout:
  assumes "leaves_timers_alone env" and "0 < n" and "n \<le> 2147483647"
    and "writes_spaced_less (nat n) 0 as"
  shows "let s = run env conv (new_EventWrapperSocket b) pre;
             s1 = snd (setTimeout n cb s)
         in timeouts_emitted (run env conv s1 as) = timeouts_emitted s1 \<and>
            (\<forall>c. \<exists>i. sock_timeout s1 = Some i \<and>
               scheduled (store (socket_write conv s1 c) ! i) = Some (now s1 + nat n)) \<and>
            (\<forall>i c. sock_timeout s = Some i \<and> i < length (store s) \<and> holds_timer (store s ! i) \<longrightarrow>
               scheduled (store (socket_write conv s c) ! i) =
                 Some (now s + runtime_delay (timeoutMs (store s ! i)))) \<and>
            (\<forall>j c. j < length (store s) \<and> scheduled (store s ! j) = None \<longrightarrow>
               scheduled (store (socket_write conv s c) ! j) = None) \<and>
            list_all (\<lambda>t. times_fired t \<le> 1) (store s)"
proof -
  define s where "s = run env conv (new_EventWrapperSocket b) pre"
  define s1 where "s1 = snd (setTimeout n cb s)"
  have cs: "timers_consistent s" unfolding s_def by (rule reachable_consistent [OF assms(1)])
  have a1: "armed (nat n) 0 s1" unfolding s1_def by (rule armed_setTimeout [OF cs assms(2,3)])
  have silent: "timeouts_emitted (run env conv s1 as) = timeouts_emitted s1"
    using armed_run [OF a1 assms(4)] by blast
  have restart: "\<forall>c. \<exists>i. sock_timeout s1 = Some i \<and>
      scheduled (store (socket_write conv s1 c) ! i) = Some (now s1 + nat n)"
  proof
    fix c
    from armed_write [OF a1, of conv c]
    obtain i where "sock_timeout (socket_write conv s1 c) = Some i"
      and "scheduled (store (socket_write conv s1 c) ! i) = Some (now (socket_write conv s1 c) + nat n - 0)"
      by (auto elim: armedD)
    then show "\<exists>i. sock_timeout s1 = Some i \<and>
      scheduled (store (socket_write conv s1 c) ! i) = Some (now s1 + nat n)"
      by (simp add: socket_write_store(2,3))
  qed
  have refreshes: "\<forall>i c. sock_timeout s = Some i \<and> i < length (store s) \<and>
      holds_timer (store s ! i) \<longrightarrow>
      scheduled (store (socket_write conv s c) ! i) =
        Some (now s + runtime_delay (timeoutMs (store s ! i)))"
    using write_refreshes_pending by blast
  have no_rearm: "\<forall>j c. j < length (store s) \<and> scheduled (store s ! j) = None \<longrightarrow>
      scheduled (store (socket_write conv s c) ! j) = None"
    using write_does_not_rearm [OF cs] by blast
  have once: "list_all (\<lambda>t. times_fired t \<le> 1) (store s)"
    by (rule consistent_fired_once [OF cs])
  from silent restart refreshes no_rearm once
  show ?thesis
    unfolding Let_def s_def [symmetric] s1_def [symmetric]
    by (intro conjI)
qed

theorem C10_write_refreshes_timeout_witness:
  "leaves_timers_alone (no_callbacks :: byte callbacks) \<and>
   timeouts_emitted
     (run no_callbacks buffer_from
        (snd (setTimeout 3 None (new_EventWrapperSocket (None :: byte list option))))
        [Tick, Tick, Write (BufferChunk [1]), Tick, Tick, Write (BufferChunk [2]), Tick]) = []"
proof -
  let ?new = "new_EventWrapperSocket None :: byte event_wrapper_socket"
  let ?as = "[Tick, Tick, Write (BufferChunk [1]), Tick, Tick, Write (BufferChunk [2]), Tick]
      :: encoding action list"
  have n: "(0::int) < 3" "(3::int) \<le> 2147483647" by simp_all
  have a: "writes_spaced_less (nat 3) 0 ?as" by simp
  have r: "run no_callbacks buffer_from ?new [] = ?new" by (simp add: run_def)
  have e: "timeouts_emitted (snd (setTimeout 3 None ?new)) = []"
    by (simp add: setTimeout_def new_BasicTimeout_def cancel_timeout_def
        new_EventWrapperSocket_def Let_def)
  note c10 = C10_write_refreshes_timeout [OF no_callbacks_alone n a, where conv = buffer_from
      and b = "None :: byte list option" and pre = "[]" and cb = None]
  have "timeouts_emitted (run no_callbacks buffer_from (snd (setTimeout 3 None ?new)) ?as)
      = timeouts_emitted (snd (setTimeout 3 None ?new))"
    by (rule c10 [unfolded Let_def r, THEN conjunct1])
  then have "timeouts_emitted (run no_callbacks buffer_from (snd (setTimeout 3 None ?new)) ?as) = []"
    by (simp only: e)
  with no_callbacks_alone show ?thesis by (intro conjI)
qed


end
